theory Spec2Isabelle
  imports Main "HOL-Library.List_Lexorder"
begin

section \<open>JavaScript values and strings\<close>

text \<open>
  A JavaScript string is a sequence of UTF-16 code units; a code unit is modelled as a
  natural number and a string as a list of them. \<open>str\<close> turns an ASCII literal into
  such a string.
\<close>

type_synonym jschar = nat
type_synonym jsstring = "jschar list"

definition str :: "string \<Rightarrow> jsstring" where
  "str s = map of_char s"

text \<open>The values a caller can pass where the chunker expects its text or a flag.\<close>

datatype jsvalue =
    JUndefined
  | JNull
  | JBool bool
  | JNum int
  | JStr jsstring
  | JObject

text \<open>JavaScript truthiness (\<open>!v\<close> is its negation).\<close>

fun truthy :: "jsvalue \<Rightarrow> bool" where
  "truthy JUndefined = False"
| "truthy JNull = False"
| "truthy (JBool b) = b"
| "truthy (JNum n) = (n \<noteq> 0)"
| "truthy (JStr s) = (s \<noteq> [])"
| "truthy JObject = True"

text \<open>
  The class \<open>\s\<close> of a regular expression, which is also what \<open>trim\<close> strips:
  tab, line feed, vertical tab, form feed, carriage return, space, U+00A0, U+1680,
  U+2000 to U+200A, U+2028, U+2029, U+202F, U+205F, U+3000 and U+FEFF.
\<close>

definition isSpace :: "jschar \<Rightarrow> bool" where
  "isSpace c \<longleftrightarrow>
     (9 \<le> c \<and> c \<le> 13) \<or> c = 32 \<or> c = 160 \<or> c = 5760 \<or> (8192 \<le> c \<and> c \<le> 8202) \<or>
     c = 8232 \<or> c = 8233 \<or> c = 8239 \<or> c = 8287 \<or> c = 12288 \<or> c = 65279"

text \<open>The line terminators, which \<open>.\<close> does not match and after which \<open>^\<close> matches
  under the flag \<open>m\<close>: line feed, carriage return, U+2028, U+2029.\<close>

definition isLineTerminator :: "jschar \<Rightarrow> bool" where
  "isLineTerminator c \<longleftrightarrow> c = 10 \<or> c = 13 \<or> c = 8232 \<or> c = 8233"

definition isUpperAZ :: "jschar \<Rightarrow> bool" where
  "isUpperAZ c \<longleftrightarrow> 65 \<le> c \<and> c \<le> 90"

definition isLowerAZ :: "jschar \<Rightarrow> bool" where
  "isLowerAZ c \<longleftrightarrow> 97 \<le> c \<and> c \<le> 122"

definition isDigit :: "jschar \<Rightarrow> bool" where
  "isDigit c \<longleftrightarrow> 48 \<le> c \<and> c \<le> 57"

abbreviation sp :: jschar where "sp \<equiv> 32"
abbreviation nl :: jschar where "nl \<equiv> 10"
abbreviation hash :: jschar where "hash \<equiv> 35"

definition trimStart :: "jsstring \<Rightarrow> jsstring" where
  "trimStart s = dropWhile isSpace s"

definition trimEnd :: "jsstring \<Rightarrow> jsstring" where
  "trimEnd s = rev (dropWhile isSpace (rev s))"

definition trim :: "jsstring \<Rightarrow> jsstring" where
  "trim s = trimEnd (trimStart s)"

text \<open>\<open>s.endsWith(suffix)\<close>.\<close>

definition endsWith :: "jsstring \<Rightarrow> jsstring \<Rightarrow> bool" where
  "endsWith s suffix \<longleftrightarrow> take (length suffix) (rev s) = rev suffix"

text \<open>\<open>parts.join(sep)\<close>.\<close>

fun join :: "jsstring \<Rightarrow> jsstring list \<Rightarrow> jsstring" where
  "join sep [] = []"
| "join sep [x] = x"
| "join sep (x # y # ys) = x @ sep @ join sep (y # ys)"

text \<open>\<open>s.split(c)\<close> for a separator of one code unit: the pieces between the
  occurrences of \<open>c\<close>, empty pieces included; the empty string gives one empty piece.
  The scan carries the piece read so far.\<close>

fun splitFrom :: "jschar \<Rightarrow> jsstring \<Rightarrow> jsstring \<Rightarrow> jsstring list" where
  "splitFrom c piece [] = [piece]"
| "splitFrom c piece (x # xs) =
     (if x = c then piece # splitFrom c [] xs else splitFrom c (piece @ [x]) xs)"

definition split_on :: "jschar \<Rightarrow> jsstring \<Rightarrow> jsstring list" where
  "split_on c s = splitFrom c [] s"

text \<open>\<open>s.split(/\s+/)\<close>: the pieces between the maximal runs of white space, empty
  pieces at both ends included.\<close>

function splitWsFrom :: "jsstring \<Rightarrow> jsstring \<Rightarrow> jsstring list" where
  "splitWsFrom piece [] = [piece]"
| "splitWsFrom piece (x # xs) =
     (if isSpace x then piece # splitWsFrom [] (dropWhile isSpace xs)
      else splitWsFrom (piece @ [x]) xs)"
  by pat_completeness auto
termination
  by (relation "measure (\<lambda>(piece, s). length s)") (auto simp: less_Suc_eq_le length_dropWhile_le)

definition split_ws :: "jsstring \<Rightarrow> jsstring list" where
  "split_ws s = splitWsFrom [] s"

text \<open>\<open>s.replace(/\s+/g, ' ')\<close>: every maximal run of white space becomes one space.\<close>

function collapse_ws :: "jsstring \<Rightarrow> jsstring" where
  "collapse_ws [] = []"
| "collapse_ws (c # cs) =
     (if isSpace c then sp # collapse_ws (dropWhile isSpace cs) else c # collapse_ws cs)"
  by pat_completeness auto
termination
  by (relation "measure length") (auto simp: less_Suc_eq_le length_dropWhile_le)

text \<open>\<open>s.replace(/\r\n/g, '\n')\<close>.\<close>

fun replace_crlf :: "jsstring \<Rightarrow> jsstring" where
  "replace_crlf (c # d # cs) =
     (if c = 13 \<and> d = 10 then nl # replace_crlf cs else c # replace_crlf (d # cs))"
| "replace_crlf cs = cs"


section \<open>The chunker (src/src/utils/chunker.js)\<close>

definition MAX_WORDS :: nat where
  "MAX_WORDS = 50"

text \<open>A chunk object \<open>{text, context}\<close>; \<open>context: null\<close> is \<open>None\<close>.\<close>

record chunk =
  chunk_text :: jsstring
  chunk_context :: "jsstring option"

text \<open>The options object of \<open>chunkText\<close>; a property that is not set is
  \<open>JUndefined\<close>, and destructuring then takes the default \<open>true\<close>.\<close>

record options =
  structuralChunking :: jsvalue

subsection \<open>countWords\<close>

definition countWords :: "jsstring \<Rightarrow> nat" where
  "countWords text =
     (if text = [] then 0
      else length (filter (\<lambda>word. length word > 0) (split_ws text)))"

text \<open>A token: a word of a white-space-separated text, not empty and holding no white
  space.\<close>

definition isToken :: "jsstring \<Rightarrow> bool" where
  "isToken w \<longleftrightarrow> w \<noteq> [] \<and> list_all (\<lambda>c. \<not> isSpace c) w"

text \<open>The words of a text: what \<open>countWords\<close> counts.\<close>

definition wordsOf :: "jsstring \<Rightarrow> jsstring list" where
  "wordsOf s = filter (\<lambda>w. length w > 0) (split_ws s)"

subsection \<open>splitIntoSentences\<close>

text \<open>\<open>w.slice(-1)\<close>: the last code unit as a string, empty for the empty string.\<close>

definition lastChar :: "jsstring \<Rightarrow> jsstring" where
  "lastChar w = (if w = [] then [] else [last w])"

definition isEndPunctuation :: "jsstring \<Rightarrow> bool" where
  "isEndPunctuation w \<longleftrightarrow> lastChar w \<in> set [str ''.'', str ''!'', str ''?'']"

text \<open>\<open>/^[A-Z]/.test(w)\<close>, false for the empty string.\<close>

definition startsWithCapital :: "jsstring \<Rightarrow> bool" where
  "startsWithCapital w \<longleftrightarrow> w \<noteq> [] \<and> isUpperAZ (hd w)"

text \<open>\<open>/^(Mr|Mrs|Ms|Dr|Prof|Sr|Jr|vs|etc|i\.e|e\.g)\.$/.test(w)\<close>: the whole word is
  one of the eleven abbreviations.\<close>

definition isAbbreviation :: "jsstring \<Rightarrow> bool" where
  "isAbbreviation w \<longleftrightarrow>
     w \<in> set (map str [''Mr.'', ''Mrs.'', ''Ms.'', ''Dr.'', ''Prof.'', ''Sr.'', ''Jr.'',
                       ''vs.'', ''etc.'', ''i.e.'', ''e.g.''])"

text \<open>The loop over \<open>words\<close>: the words still to visit, \<open>current\<close> and
  \<open>sentences\<close>. The word \<open>words[i + 1]\<close> is the head of the rest, and
  \<open>i === words.length - 1\<close> holds when the rest is empty. The equation for the empty
  list is the code after the loop.\<close>

fun sentenceLoop :: "jsstring list \<Rightarrow> jsstring \<Rightarrow> jsstring list \<Rightarrow> jsstring list" where
  "sentenceLoop [] current sentences =
     (if trim current \<noteq> [] then sentences @ [trim current] else sentences)"
| "sentenceLoop (w # rest) current sentences =
     (let current' = current @ (if current \<noteq> [] then [sp] else []) @ w;
          nextStartsWithCapital =
            (case rest of [] \<Rightarrow> False | nextWord # _ \<Rightarrow> startsWithCapital nextWord)
      in if isEndPunctuation w \<and> \<not> isAbbreviation w \<and> (nextStartsWithCapital \<or> rest = [])
         then sentenceLoop rest [] (sentences @ [trim current'])
         else sentenceLoop rest current' sentences)"

definition splitIntoSentences :: "jsstring \<Rightarrow> jsstring list" where
  "splitIntoSentences text = sentenceLoop (split_on sp text) [] []"

subsection \<open>Sentence splitting as the specification words it\<close>

text \<open>
  The specification walks the text word by word: a word ending in a full stop, an
  exclamation mark or a question mark that is not a recognized abbreviation ends the
  current sentence when it is the last word or the following word starts with an
  upper-case letter; every other word extends the current sentence, and the final
  partial sentence is emitted as it is. Which code units are upper-case letters is the
  first argument of the two definitions. \<open>spec_endsSentence upper w rest\<close> says that
  the word \<open>w\<close>, followed by the words \<open>rest\<close>, ends the current sentence, and
  \<open>spec_sentences upper current ws\<close> is the list of the sentences, each the list of
  its words, for the words \<open>current\<close> of the sentence begun and the words \<open>ws\<close> still
  to read.
\<close>

definition spec_abbreviations :: "jsstring list" where
  "spec_abbreviations =
     map str [''Mr.'', ''Mrs.'', ''Ms.'', ''Dr.'', ''Prof.'', ''Sr.'', ''Jr.'', ''vs.'', ''etc.'',
              ''i.e.'', ''e.g.'']"

definition spec_endsSentence :: "(jschar \<Rightarrow> bool) \<Rightarrow> jsstring \<Rightarrow> jsstring list \<Rightarrow> bool" where
  "spec_endsSentence upper w rest \<longleftrightarrow>
     (w \<noteq> [] \<and> last w \<in> set (str ''.!?'')) \<and>
     w \<notin> set spec_abbreviations \<and>
     (rest = [] \<or> (hd rest \<noteq> [] \<and> upper (hd (hd rest))))"

fun spec_sentences ::
  "(jschar \<Rightarrow> bool) \<Rightarrow> jsstring list \<Rightarrow> jsstring list \<Rightarrow> jsstring list list" where
  "spec_sentences upper current [] = (if current = [] then [] else [current])"
| "spec_sentences upper current (w # rest) =
     (if spec_endsSentence upper w rest then (current @ [w]) # spec_sentences upper [] rest
      else spec_sentences upper (current @ [w]) rest)"

text \<open>Upper-case letters as the specification's words have them, for the code units up
  to U+00FF: \<open>A\<close> to \<open>Z\<close> and the capital letters of Latin-1, U+00C0 to U+00D6 and
  U+00D8 to U+00DE.\<close>

definition spec_upperCaseLetter :: "jschar \<Rightarrow> bool" where
  "spec_upperCaseLetter c \<longleftrightarrow>
     (65 \<le> c \<and> c \<le> 90) \<or> (192 \<le> c \<and> c \<le> 214) \<or> (216 \<le> c \<and> c \<le> 222)"

subsection \<open>splitLongSentence\<close>

text \<open>The test of the look-back loop. The fourth literal of the source file is the
  three code units U+00E2, U+20AC, U+201D.\<close>

definition isBreakWord :: "jsstring \<Rightarrow> bool" where
  "isBreakWord w \<longleftrightarrow>
     endsWith w (str '','') \<or> endsWith w (str '';'') \<or> endsWith w (str '':'') \<or>
     endsWith w [226, 8364, 8221] \<or> endsWith w (str ''-'')"

text \<open>The look-back loop \<open>for (i = length - 1; i >= max(0, length - 10); i--)\<close>, from
  index \<open>i\<close> on; the last argument is the value \<open>breakIndex\<close> has when no word
  matches.\<close>

function lookBack :: "jsstring list \<Rightarrow> int \<Rightarrow> int \<Rightarrow> int" where
  "lookBack currentChunk i breakIndex =
     (if i \<ge> max 0 (int (length currentChunk) - 10)
      then (if isBreakWord (currentChunk ! nat i) then i
            else lookBack currentChunk (i - 1) breakIndex)
      else breakIndex)"
  by pat_completeness auto
termination
  by (relation "measure (\<lambda>(c, i, b). nat (i + 1))") auto

declare lookBack.simps [simp del]

fun longLoop :: "jsstring list \<Rightarrow> jsstring list \<Rightarrow> jsstring list \<Rightarrow> jsstring list" where
  "longLoop [] chunks currentChunk =
     (if length currentChunk > 0 then chunks @ [join [sp] currentChunk] else chunks)"
| "longLoop (word # ws) chunks currentChunk =
     (let pushed = currentChunk @ [word]
      in if length pushed \<ge> MAX_WORDS
         then (let breakIndex = lookBack pushed (int (length pushed) - 1) (int (length pushed) - 1);
                   chunk = join [sp] (take (nat (breakIndex + 1)) pushed)
               in longLoop ws (chunks @ [chunk]) (drop (nat (breakIndex + 1)) pushed))
         else longLoop ws chunks pushed)"

definition splitLongSentence :: "jsstring \<Rightarrow> jsstring list" where
  "splitLongSentence sentence =
     filter (\<lambda>c. length (trim c) > 0) (longLoop (split_on sp sentence) [] [])"

subsection \<open>chunkSentences\<close>

text \<open>The loop over the sentences, with \<open>chunks\<close>, \<open>currentChunk\<close> and
  \<open>currentWordCount\<close>; the equation for the empty list is the code after the loop.\<close>

fun packLoop ::
  "jsstring list \<Rightarrow> jsstring list \<Rightarrow> jsstring list \<Rightarrow> nat \<Rightarrow> jsstring list" where
  "packLoop [] chunks currentChunk currentWordCount =
     (if length currentChunk > 0 then chunks @ [trim (join [sp] currentChunk)] else chunks)"
| "packLoop (sentence # rest) chunks currentChunk currentWordCount =
     (let sentenceWords = countWords sentence
      in if sentenceWords > MAX_WORDS
         then (if length currentChunk > 0
               then packLoop rest
                      ((chunks @ [trim (join [sp] currentChunk)]) @ splitLongSentence sentence) [] 0
               else packLoop rest (chunks @ splitLongSentence sentence)
                      currentChunk currentWordCount)
         else if currentWordCount + sentenceWords > MAX_WORDS
         then packLoop rest
                (if length currentChunk > 0 then chunks @ [trim (join [sp] currentChunk)]
                 else chunks)
                [sentence] sentenceWords
         else packLoop rest chunks (currentChunk @ [sentence]) (currentWordCount + sentenceWords))"

definition chunkSentences :: "jsstring list \<Rightarrow> jsstring list" where
  "chunkSentences sentences = filter (\<lambda>chunk. length chunk > 0) (packLoop sentences [] [] 0)"

subsection \<open>chunkByStructure\<close>

text \<open>\<open>/\s*./\<close> matched at the start of a string: some white space, then a code unit
  that is not a line terminator.\<close>

fun spacesThenAny :: "jsstring \<Rightarrow> bool" where
  "spacesThenAny [] = False"
| "spacesThenAny (c # cs) = (\<not> isLineTerminator c \<or> (isSpace c \<and> spacesThenAny cs))"

text \<open>\<open>/#{1,6}\s+.+/\<close> matched at the start of a string: one to six \<open>#\<close> (a seventh
  is not white space, so the run is at most six long), one white space, then
  \<open>/\s*./\<close>.\<close>

definition headerAt :: "jsstring \<Rightarrow> bool" where
  "headerAt s =
     (let k = length (takeWhile (\<lambda>c. c = hash) s); r = drop k s
      in 1 \<le> k \<and> k \<le> 6 \<and> r \<noteq> [] \<and> isSpace (hd r) \<and> spacesThenAny (tl r))"

text \<open>\<open>/^#{1,6}\s+.+/m.test(s)\<close>: under the flag \<open>m\<close> the anchor matches at the
  start of the string and after every line terminator. The flag of the function says
  whether the anchor matches at the head of the string.\<close>

fun headerFrom :: "bool \<Rightarrow> jsstring \<Rightarrow> bool" where
  "headerFrom atLineStart [] = False"
| "headerFrom atLineStart (c # cs) =
     ((atLineStart \<and> headerAt (c # cs)) \<or> headerFrom (isLineTerminator c) cs)"

definition hasHeaders :: "jsstring \<Rightarrow> bool" where
  "hasHeaders s = headerFrom True s"

text \<open>\<open>line.match(/^(#{1,6})\s+(.+)$/)\<close>, giving the second group when the line
  matches. The run of \<open>#\<close> is one to six long and white space follows it. The greedy
  \<open>\s+\<close> first takes the whole run of white space and then gives back one code unit
  at a time; the group is the rest of the line, which must not be empty and must hold
  no line terminator.\<close>

definition headerMatch :: "jsstring \<Rightarrow> jsstring option" where
  "headerMatch line =
     (let k = length (takeWhile (\<lambda>c. c = hash) line);
          r = drop k line;
          n = length (takeWhile isSpace r)
      in if 1 \<le> k \<and> k \<le> 6
         then find (\<lambda>g. g \<noteq> [] \<and> list_all (\<lambda>c. \<not> isLineTerminator c) g)
                (map (\<lambda>j. drop j r) (rev [1 ..< Suc n]))
         else None)"

record sect =
  header :: "jsstring option"
  content :: jsstring

text \<open>The first loop of \<open>chunkByStructure\<close>: the lines still to read, \<open>sections\<close>,
  \<open>currentHeader\<close> and \<open>currentContent\<close>; the equation for the empty list is the
  push of the last section.\<close>

fun sectionLoop ::
  "jsstring list \<Rightarrow> sect list \<Rightarrow> jsstring option \<Rightarrow> jsstring list \<Rightarrow> sect list" where
  "sectionLoop [] sections currentHeader currentContent =
     (if length currentContent > 0
      then sections @ [\<lparr>header = currentHeader, content = trim (join [nl] currentContent)\<rparr>]
      else sections)"
| "sectionLoop (line # rest) sections currentHeader currentContent =
     (case headerMatch line of
        Some title \<Rightarrow>
          sectionLoop rest
            (if length currentContent > 0
             then sections @ [\<lparr>header = currentHeader, content = trim (join [nl] currentContent)\<rparr>]
             else sections)
            (Some (trim title)) []
      | None \<Rightarrow> sectionLoop rest sections currentHeader (currentContent @ [line]))"

text \<open>The body of the second loop, for one section.\<close>

definition sectionChunks :: "sect \<Rightarrow> chunk list" where
  "sectionChunks s =
     (if content s = [] then []
      else map (\<lambda>t. \<lparr>chunk_text = t, chunk_context = header s\<rparr>)
             (chunkSentences (splitIntoSentences (trim (collapse_ws (content s))))))"

definition chunkByStructure :: "jsstring \<Rightarrow> chunk list" where
  "chunkByStructure text =
     concat (map sectionChunks (sectionLoop (split_on nl text) [] None []))"

subsection \<open>chunkText\<close>

text \<open>The destructuring \<open>const { structuralChunking = true } = options\<close>.\<close>

definition structuralFlag :: "options \<Rightarrow> jsvalue" where
  "structuralFlag opts =
     (if structuralChunking opts = JUndefined then JBool True else structuralChunking opts)"

definition chunkText :: "jsvalue \<Rightarrow> options \<Rightarrow> chunk list" where
  "chunkText v opts =
     (let flag = structuralFlag opts
      in case v of
           JStr text \<Rightarrow>
             if text = [] then []
             else (let normalizedText = trim (replace_crlf text)
                   in if normalizedText = [] then []
                      else if truthy flag \<and> hasHeaders normalizedText
                      then chunkByStructure normalizedText
                      else map (\<lambda>t. \<lparr>chunk_text = t, chunk_context = None\<rparr>)
                             (chunkSentences
                                (splitIntoSentences (trim (collapse_ws normalizedText)))))
         | _ \<Rightarrow> [])"

subsection \<open>The sections of a text as the specification describes them\<close>

text \<open>
  A text with headings is a leading block of lines followed by headed sections: every
  heading line opens a section that runs to the next heading line. \<open>spec_outline\<close>
  gives the leading block (the lines before the first heading line) and the headed
  sections in order, each with the trimmed title of its heading line and the lines of
  its body.
\<close>

fun spec_outline :: "jsstring list \<Rightarrow> jsstring list \<times> (jsstring \<times> jsstring list) list" where
  "spec_outline [] = ([], [])"
| "spec_outline (l # ls) =
     (case spec_outline ls of
        (lead, secs) \<Rightarrow>
          (case headerMatch l of
             Some title \<Rightarrow> ([], (trim title, lead) # secs)
           | None \<Rightarrow> (l # lead, secs)))"

text \<open>The chunks of a block of lines: nothing when the block, joined and trimmed, is
  empty; otherwise its white space is collapsed and its sentences are split and
  packed.\<close>

definition spec_blockChunks :: "jsstring list \<Rightarrow> jsstring list" where
  "spec_blockChunks body =
     (if trim (join [nl] body) = [] then []
      else chunkSentences (splitIntoSentences (trim (collapse_ws (trim (join [nl] body))))))"

definition withContext :: "jsstring option \<Rightarrow> jsstring \<Rightarrow> chunk" where
  "withContext h t = \<lparr>chunk_text = t, chunk_context = h\<rparr>"

subsection \<open>getChunkStats\<close>






section \<open>Heading patterns (src/src/utils/textParser.js)\<close>

text \<open>Matching under the flag \<open>i\<close> (without the flag \<open>u\<close>): a letter of the pattern
  matches its two ASCII cases and no other code unit.\<close>

definition lowerAZ :: "jschar \<Rightarrow> jschar" where
  "lowerAZ c = (if isUpperAZ c then c + 32 else c)"

text \<open>\<open>/^lit/i.test(s)\<close> for a literal \<open>lit\<close> of lower-case letters.\<close>

definition startsWithCI :: "jsstring \<Rightarrow> jsstring \<Rightarrow> bool" where
  "startsWithCI lit s \<longleftrightarrow> map lowerAZ (take (length lit) s) = lit"

text \<open>\<open>/^\s+[class]/\<close> at the start of a string, for a class that holds no white
  space: the string starts with white space, and the first code unit after that run is
  in the class.\<close>

definition spacesThen :: "(jschar \<Rightarrow> bool) \<Rightarrow> jsstring \<Rightarrow> bool" where
  "spacesThen cls r \<longleftrightarrow>
     r \<noteq> [] \<and> isSpace (hd r) \<and> (case dropWhile isSpace r of [] \<Rightarrow> False | c # _ \<Rightarrow> cls c)"

text \<open>\<open>[\divxlc]\<close> and \<open>[IVXLC]\<close> under the flag \<open>i\<close>.\<close>

definition isRomanCI :: "jschar \<Rightarrow> bool" where
  "isRomanCI c \<longleftrightarrow> lowerAZ c \<in> set (str ''ivxlc'')"

text \<open>\<open>/^(\.\d+)*\s+[A-Z]/\<close> at the start of a string.\<close>

function outlineRest :: "jsstring \<Rightarrow> bool" where
  "outlineRest [] = False"
| "outlineRest (c # cs) =
     (spacesThen isUpperAZ (c # cs) \<or>
      (c = 46 \<and> cs \<noteq> [] \<and> isDigit (hd cs) \<and> outlineRest (dropWhile isDigit cs)))"
  by pat_completeness auto
termination
  by (relation "measure length") (auto simp: less_Suc_eq_le length_dropWhile_le)

definition headingKeywords :: "jsstring list" where
  "headingKeywords =
     map str [''introduction'', ''conclusion'', ''abstract'', ''summary'', ''overview'',
              ''background'', ''methodology'', ''results'', ''discussion'', ''references'',
              ''appendix'', ''acknowledgments'', ''acknowledgment'']"

text \<open>\<open>String.prototype.toUpperCase\<close> is the first argument of
  \<open>detectHeadingPattern\<close>: its mapping of letters is no part of the repository.\<close>

definition detectHeadingPattern :: "(jsstring \<Rightarrow> jsstring) \<Rightarrow> jsstring \<Rightarrow> bool" where
  "detectHeadingPattern toUpperCase text =
     (let trimmed = trim text
      in if length trimmed < 2 then False
         else if startsWithCI (str ''chapter'') trimmed \<and>
                 spacesThen (\<lambda>c. isDigit c \<or> isRomanCI c) (drop 7 trimmed) then True
         else if startsWithCI (str ''section'') trimmed \<and>
                 spacesThen (\<lambda>c. isDigit c \<or> c = 46) (drop 7 trimmed) then True
         else if isDigit (hd trimmed) \<and> outlineRest (dropWhile isDigit trimmed) then True
         else (let words = split_ws trimmed
               in if length words \<ge> 2 \<and> length words \<le> 8 \<and>
                     list_all (\<lambda>w. w = toUpperCase w \<and> list_ex isUpperAZ w) words then True
                  else if list_ex (\<lambda>k. startsWithCI k trimmed) headingKeywords then True
                  else if isRomanCI (hd trimmed) \<and>
                          (case dropWhile isRomanCI trimmed of
                             [] \<Rightarrow> False
                           | c # r \<Rightarrow> c = 46 \<and> spacesThen (\<lambda>c. isUpperAZ c \<or> isLowerAZ c) r)
                  then True
                  else False))"

section \<open>The persistence layer (src/unnamed/part_000)\<close>

record document =
  doc_id :: jsstring
  doc_name :: jsstring
  doc_content :: jsstring
  doc_chunks :: "chunk list"
  doc_totalChunks :: nat
  doc_createdAt :: jsstring

record bookmark =
  bm_id :: jsstring
  bm_documentId :: jsstring
  bm_chunkIndex :: int
  bm_text :: jsstring
  bm_createdAt :: jsstring

record progressEntry =
  pr_documentId :: jsstring
  pr_currentIndex :: int
  pr_lastRead :: jsstring

text \<open>The database: three object stores, each a list of records in the order of their
  keys (strings compare code unit by code unit), with one record per key.\<close>

record db =
  documents :: "document list"
  bookmarks :: "bookmark list"
  progress :: "progressEntry list"

text \<open>\<open>db.put(store, record)\<close>: the record replaces the one with its key, or is added
  at its place in the order of the keys.\<close>

fun storePut :: "('r \<Rightarrow> jsstring) \<Rightarrow> 'r \<Rightarrow> 'r list \<Rightarrow> 'r list" where
  "storePut key r [] = [r]"
| "storePut key r (x # xs) =
     (if key r = key x then r # xs
      else if key r < key x then r # x # xs
      else x # storePut key r xs)"

text \<open>\<open>db.delete(store, k)\<close>.\<close>

definition storeDelete :: "('r \<Rightarrow> jsstring) \<Rightarrow> jsstring \<Rightarrow> 'r list \<Rightarrow> 'r list" where
  "storeDelete key k rs = filter (\<lambda>r. key r \<noteq> k) rs"

text \<open>\<open>db.getAllFromIndex('bookmarks', 'documentId', documentId)\<close>: the bookmarks of
  the document, in the order of their keys.\<close>

definition getBookmarksByDocument :: "jsstring \<Rightarrow> db \<Rightarrow> bookmark list" where
  "getBookmarksByDocument documentId d = filter (\<lambda>b. bm_documentId b = documentId) (bookmarks d)"

definition deleteBookmark :: "jsstring \<Rightarrow> db \<Rightarrow> db" where
  "deleteBookmark bookmarkId d = d\<lparr>bookmarks := storeDelete bm_id bookmarkId (bookmarks d)\<rparr>"

text \<open>\<open>saveBookmark\<close>. The first two arguments are what \<open>crypto.randomUUID()\<close> and
  \<open>new Date().toISOString()\<close> return at the call; the third is the \<open>id\<close> property of
  the argument, \<open>None\<close> when it has none.\<close>

definition saveBookmark ::
  "jsstring \<Rightarrow> jsstring \<Rightarrow> jsstring option \<Rightarrow> jsstring \<Rightarrow> int \<Rightarrow> jsstring \<Rightarrow> db \<Rightarrow> bookmark \<times> db" where
  "saveBookmark uuid now givenId documentId chunkIndex text d =
     (let newBookmark =
            \<lparr>bm_id = (case givenId of None \<Rightarrow> uuid | Some i \<Rightarrow> if i \<noteq> [] then i else uuid),
             bm_documentId = documentId, bm_chunkIndex = chunkIndex, bm_text = text,
             bm_createdAt = now\<rparr>
      in (newBookmark, d\<lparr>bookmarks := storePut bm_id newBookmark (bookmarks d)\<rparr>))"

record toggleResult =
  added :: bool
  bookmark_of :: "bookmark option"

definition toggleBookmark ::
  "jsstring \<Rightarrow> jsstring \<Rightarrow> jsstring \<Rightarrow> int \<Rightarrow> jsstring \<Rightarrow> db \<Rightarrow> toggleResult \<times> db" where
  "toggleBookmark uuid now documentId chunkIndex text d =
     (case find (\<lambda>b. bm_chunkIndex b = chunkIndex) (getBookmarksByDocument documentId d) of
        Some existing \<Rightarrow> (\<lparr>added = False, bookmark_of = None\<rparr>, deleteBookmark (bm_id existing) d)
      | None \<Rightarrow>
          (let (bookmark, d') = saveBookmark uuid now None documentId chunkIndex text d
           in (\<lparr>added = True, bookmark_of = Some bookmark\<rparr>, d')))"

definition isChunkBookmarked :: "jsstring \<Rightarrow> int \<Rightarrow> db \<Rightarrow> bool" where
  "isChunkBookmarked documentId chunkIndex d \<longleftrightarrow>
     list_ex (\<lambda>b. bm_chunkIndex b = chunkIndex) (getBookmarksByDocument documentId d)"

text \<open>\<open>deleteDocument\<close>: the document, then each bookmark that
  \<open>getBookmarksByDocument\<close> returns, then the progress entry.\<close>

definition deleteDocument :: "jsstring \<Rightarrow> db \<Rightarrow> db" where
  "deleteDocument docId d =
     (let d1 = d\<lparr>documents := storeDelete doc_id docId (documents d)\<rparr>;
          found = getBookmarksByDocument docId d1;
          d2 = fold (\<lambda>b. deleteBookmark (bm_id b)) found d1
      in d2\<lparr>progress := storeDelete pr_documentId docId (progress d2)\<rparr>)"

section \<open>Evaluation\<close>

lemmas string_eval =
  str_def isSpace_def isLineTerminator_def isUpperAZ_def isLowerAZ_def isDigit_def
  trim_def trimStart_def trimEnd_def endsWith_def split_on_def split_ws_def

lemmas chunker_eval =
  MAX_WORDS_def countWords_def lastChar_def isEndPunctuation_def startsWithCapital_def
  isAbbreviation_def splitIntoSentences_def isBreakWord_def lookBack.simps
  splitLongSentence_def chunkSentences_def headerAt_def hasHeaders_def headerMatch_def
  sectionChunks_def chunkByStructure_def structuralFlag_def chunkText_def

section \<open>Strings: trimming, joining, splitting\<close>

lemma isSpace_sp [simp]: "isSpace sp"
  by (simp add: isSpace_def)

lemma isToken_no_sp: "isToken w \<Longrightarrow> sp \<notin> set w"
  by (auto simp: isToken_def list_all_iff)

subsection \<open>trim\<close>

lemma trimEnd_Nil [simp]: "trimEnd [] = []"
  by (simp add: trimEnd_def)

lemma trimEnd_append:
  "trimEnd (a @ b) = (if trimEnd b = [] then trimEnd a else a @ trimEnd b)"
  by (auto simp: trimEnd_def dropWhile_append)

lemma trimEnd_snoc:
  "trimEnd (a @ [c]) = (if isSpace c then trimEnd a else a @ [c])"
  by (simp add: trimEnd_def)

lemma trimEnd_id: "s = [] \<or> \<not> isSpace (last s) \<Longrightarrow> trimEnd s = s"
  by (cases s rule: rev_cases) (auto simp: trimEnd_snoc)

lemma trimStart_id: "s = [] \<or> \<not> isSpace (hd s) \<Longrightarrow> trimStart s = s"
  by (cases s) (auto simp: trimStart_def)

lemma trim_id: "s = [] \<or> (\<not> isSpace (hd s) \<and> \<not> isSpace (last s)) \<Longrightarrow> trim s = s"
  by (auto simp: trim_def trimStart_id trimEnd_id)

lemma trimEnd_spaces: "list_all isSpace u \<Longrightarrow> trimEnd (s @ u) = trimEnd s"
  by (induction u rule: rev_induct) (auto simp: trimEnd_snoc simp flip: append_assoc)

lemma trimEnd_decomp: "\<exists>u. s = trimEnd s @ u \<and> list_all isSpace u"
proof -
  have "rev s = takeWhile isSpace (rev s) @ dropWhile isSpace (rev s)" by simp
  then have "s = rev (dropWhile isSpace (rev s)) @ rev (takeWhile isSpace (rev s))"
    by (metis rev_append rev_rev_ident)
  moreover have "list_all isSpace (rev (takeWhile isSpace (rev s)))"
    by (auto simp: list_all_iff dest: set_takeWhileD)
  ultimately show ?thesis unfolding trimEnd_def by blast
qed

subsection \<open>join\<close>

lemma join_Cons: "ws \<noteq> [] \<Longrightarrow> join sep (w # ws) = w @ sep @ join sep ws"
  by (cases ws) auto

lemma join_append:
  "xs \<noteq> [] \<Longrightarrow> ys \<noteq> [] \<Longrightarrow> join sep (xs @ ys) = join sep xs @ sep @ join sep ys"
  by (induction sep xs rule: join.induct) (auto simp: join_Cons)

lemma join_snoc: "xs \<noteq> [] \<Longrightarrow> join sep (xs @ [w]) = join sep xs @ sep @ w"
  by (simp add: join_append)

lemma join_eq_Nil: "\<forall>w \<in> set ws. w \<noteq> [] \<Longrightarrow> join sep ws = [] \<longleftrightarrow> ws = []"
  by (induction sep ws rule: join.induct) auto

lemma hd_join: "ws \<noteq> [] \<Longrightarrow> hd ws \<noteq> [] \<Longrightarrow> hd (join sep ws) = hd (hd ws)"
  by (induction sep ws rule: join.induct) auto

lemma join_last_nonempty: "ws \<noteq> [] \<Longrightarrow> last ws \<noteq> [] \<Longrightarrow> join sep ws \<noteq> []"
  by (induction sep ws rule: join.induct) auto

lemma last_join: "ws \<noteq> [] \<Longrightarrow> last ws \<noteq> [] \<Longrightarrow> last (join sep ws) = last (last ws)"
proof (induction sep ws rule: join.induct)
  case (3 sep x y ys)
  then have "join sep (y # ys) \<noteq> []" by (intro join_last_nonempty) auto
  with 3 show ?case by simp
qed auto

lemma join_concat:
  "\<forall>g \<in> set gs. g \<noteq> [] \<Longrightarrow> join sep (map (join sep) gs) = join sep (concat gs)"
proof (induction gs)
  case Nil
  then show ?case by simp
next
  case (Cons g gs)
  show ?case
  proof (cases "gs = []")
    case True
    then show ?thesis by simp
  next
    case False
    with Cons.prems have "concat gs \<noteq> []" by (cases gs) auto
    with Cons False show ?thesis by (simp add: join_Cons join_append)
  qed
qed

lemma trim_join_tokens: "\<forall>w \<in> set ws. isToken w \<Longrightarrow> trim (join [sp] ws) = join [sp] ws"
proof (cases "ws = []")
  case True
  then show ?thesis by (simp add: trim_def trimStart_def)
next
  case False
  assume tok: "\<forall>w \<in> set ws. isToken w"
  with False have "isToken (hd ws)" "isToken (last ws)" by auto
  then have "\<not> isSpace (hd (join [sp] ws))" "\<not> isSpace (last (join [sp] ws))"
    using False by (auto simp: hd_join last_join isToken_def list_all_iff)
  then show ?thesis by (simp add: trim_id)
qed


subsection \<open>split\<close>

lemma splitFrom_no_sep: "c \<notin> set w \<Longrightarrow> splitFrom c piece w = [piece @ w]"
  by (induction w arbitrary: piece) auto

lemma splitFrom_sep:
  "c \<notin> set w \<Longrightarrow> splitFrom c piece (w @ c # r) = (piece @ w) # splitFrom c [] r"
  by (induction w arbitrary: piece) auto

lemma split_on_join:
  "ws \<noteq> [] \<Longrightarrow> \<forall>w \<in> set ws. c \<notin> set w \<Longrightarrow> split_on c (join [c] ws) = ws"
proof (induction ws)
  case Nil
  then show ?case by simp
next
  case (Cons w ws)
  show ?case
  proof (cases "ws = []")
    case True
    with Cons.prems show ?thesis by (simp add: split_on_def splitFrom_no_sep)
  next
    case False
    with Cons have "splitFrom c [] (join [c] ws) = ws" by (simp add: split_on_def)
    with Cons.prems False show ?thesis
      by (simp add: split_on_def join_Cons splitFrom_sep)
  qed
qed

lemma splitWsFrom_no_space:
  "list_all (\<lambda>c. \<not> isSpace c) w \<Longrightarrow> splitWsFrom piece (w @ r) = splitWsFrom (piece @ w) r"
  by (induction w arbitrary: piece) auto

lemma wordsOf_Nil [simp]: "wordsOf [] = []"
  by (simp add: wordsOf_def split_ws_def)

lemma wordsOf_dropWhile: "wordsOf (dropWhile isSpace s) = wordsOf s"
  by (cases s) (auto simp: wordsOf_def split_ws_def)

lemma wordsOf_token_Cons:
  assumes "isToken w" "r = [] \<or> isSpace (hd r)"
  shows "wordsOf (w @ r) = w # wordsOf r"
proof -
  have "splitWsFrom [] (w @ r) = splitWsFrom w r"
    using assms(1) splitWsFrom_no_space [of w "[]" r] by (simp add: isToken_def)
  moreover have "filter (\<lambda>x. length x > 0) (splitWsFrom w r) = w # wordsOf r"
  proof (cases r)
    case Nil
    with assms(1) show ?thesis by (simp add: isToken_def)
  next
    case (Cons x xs)
    with assms(2) have "isSpace x" by simp
    then have "wordsOf r = filter (\<lambda>x. length x > 0) (splitWsFrom [] (dropWhile isSpace xs))"
      using Cons by (simp add: wordsOf_def split_ws_def)
    with Cons \<open>isSpace x\<close> assms(1) show ?thesis by (simp add: isToken_def)
  qed
  ultimately show ?thesis by (simp add: wordsOf_def split_ws_def)
qed

lemma wordsOf_join:
  "\<forall>w \<in> set ws. isToken w \<Longrightarrow> wordsOf (join [sp] ws) = ws"
proof (induction ws)
  case Nil
  then show ?case by simp
next
  case (Cons w ws)
  show ?case
  proof (cases "ws = []")
    case True
    with Cons.prems wordsOf_token_Cons [of w "[]"] show ?thesis by simp
  next
    case False
    have "wordsOf (w @ sp # join [sp] ws) = w # wordsOf (sp # join [sp] ws)"
      using Cons.prems by (intro wordsOf_token_Cons) auto
    also have "wordsOf (sp # join [sp] ws) = wordsOf (join [sp] ws)"
      using wordsOf_dropWhile [of "sp # join [sp] ws"] wordsOf_dropWhile [of "join [sp] ws"]
      by simp
    finally show ?thesis using Cons False by (simp add: join_Cons)
  qed
qed

lemma countWords_wordsOf: "countWords s = length (wordsOf s)"
  by (simp add: countWords_def wordsOf_def split_ws_def)

lemma countWords_join:
  "\<forall>w \<in> set ws. isToken w \<Longrightarrow> countWords (join [sp] ws) = length ws"
  by (simp add: countWords_wordsOf wordsOf_join)

lemma splitWsFrom_pieces:
  "list_all (\<lambda>c. \<not> isSpace c) piece \<Longrightarrow>
   \<forall>w \<in> set (splitWsFrom piece s). list_all (\<lambda>c. \<not> isSpace c) w"
  by (induction piece s rule: splitWsFrom.induct) auto

lemma wordsOf_tokens: "\<forall>w \<in> set (wordsOf s). isToken w"
  using splitWsFrom_pieces [of "[]" s] by (auto simp: wordsOf_def split_ws_def isToken_def)


subsection \<open>Collapsing white space\<close>

lemma collapse_ws_no_leading_space:
  "s = [] \<or> \<not> isSpace (hd s) \<Longrightarrow> trimStart (collapse_ws s) = collapse_ws s"
  by (cases s) (auto simp: trimStart_def)

lemma dropWhile_no_leading_space:
  "dropWhile isSpace s = [] \<or> \<not> isSpace (hd (dropWhile isSpace s))"
  using hd_dropWhile [of isSpace s] by auto

lemma trim_collapse_piece:
  "list_all (\<lambda>c. \<not> isSpace c) piece \<Longrightarrow>
   trim (piece @ collapse_ws s) = join [sp] (filter (\<lambda>w. length w > 0) (splitWsFrom piece s))"
proof (induction piece s rule: splitWsFrom.induct)
  case (1 piece)
  then have "piece = [] \<or> (\<not> isSpace (hd piece) \<and> \<not> isSpace (last piece))"
    by (cases piece) (auto simp: list_all_iff)
  then show ?case by (simp add: trim_id)
next
  case (2 piece x xs)
  show ?case
  proof (cases "isSpace x")
    case False
    with 2 show ?thesis by simp
  next
    case True
    let ?r = "dropWhile isSpace xs"
    let ?R = "filter (\<lambda>w. length w > 0) (splitWsFrom [] ?r)"
    have "trim (collapse_ws ?r) = join [sp] ?R"
      using "2.IH"(1) [OF True] by simp
    moreover have "trimStart (collapse_ws ?r) = collapse_ws ?r"
      by (rule collapse_ws_no_leading_space) (rule dropWhile_no_leading_space)
    ultimately have C: "trimEnd (collapse_ws ?r) = join [sp] ?R"
      by (simp add: trim_def)
    have nonempty: "\<forall>w \<in> set ?R. w \<noteq> []" by auto
    show ?thesis
    proof (cases "piece = []")
      case True
      have "trim (sp # collapse_ws ?r) = trim (collapse_ws ?r)"
        by (simp add: trim_def trimStart_def)
      with True \<open>isSpace x\<close> \<open>trim (collapse_ws ?r) = join [sp] ?R\<close> show ?thesis by simp
    next
      case False
      with "2.prems" have edge: "\<not> isSpace (hd piece)" "\<not> isSpace (last piece)"
        by (auto simp: list_all_iff)
      then have "trimStart (piece @ sp # collapse_ws ?r) = piece @ sp # collapse_ws ?r"
        using False by (intro trimStart_id) auto
      then have "trim (piece @ sp # collapse_ws ?r) = trimEnd (piece @ ([sp] @ collapse_ws ?r))"
        by (simp add: trim_def)
      also have "\<dots> = (if ?R = [] then piece else piece @ sp # join [sp] ?R)"
      proof -
        have sp1: "trimEnd [sp] = []" by (simp add: trimEnd_def)
        have A: "trimEnd ([sp] @ collapse_ws ?r) =
            (if trimEnd (collapse_ws ?r) = [] then trimEnd [sp] else [sp] @ trimEnd (collapse_ws ?r))"
          by (rule trimEnd_append)
        have B: "trimEnd (piece @ ([sp] @ collapse_ws ?r)) =
            (if trimEnd ([sp] @ collapse_ws ?r) = [] then trimEnd piece
             else piece @ trimEnd ([sp] @ collapse_ws ?r))"
          by (rule trimEnd_append)
        have P: "trimEnd piece = piece" using edge by (simp add: trimEnd_id)
        have N: "join [sp] ?R = [] \<longleftrightarrow> ?R = []" using nonempty by (rule join_eq_Nil)
        show ?thesis
        proof (cases "?R = []")
          case True
          with C have "trimEnd (collapse_ws ?r) = []" by simp
          with A sp1 have "trimEnd ([sp] @ collapse_ws ?r) = []" by simp
          with B P True show ?thesis by simp
        next
          case False
          with C N have ne: "trimEnd (collapse_ws ?r) \<noteq> []" by simp
          with A C have "trimEnd ([sp] @ collapse_ws ?r) = [sp] @ join [sp] ?R" by simp
          with B False show ?thesis by simp
        qed
      qed
      also have "\<dots> = join [sp] (piece # ?R)"
        by (simp add: join_Cons)
      finally show ?thesis using False \<open>isSpace x\<close> by simp
    qed
  qed
qed

lemma trim_collapse_ws: "trim (collapse_ws s) = join [sp] (wordsOf s)"
  using trim_collapse_piece [of "[]" s] by (simp add: wordsOf_def split_ws_def)

section \<open>Sentence splitting on the words of a text\<close>

lemma endsSentence_code:
  "(isEndPunctuation w \<and> \<not> isAbbreviation w \<and>
     ((case rest of [] \<Rightarrow> False | nextWord # _ \<Rightarrow> startsWithCapital nextWord) \<or> rest = []))
   = spec_endsSentence isUpperAZ w rest"
  by (cases rest)
     (auto simp: isEndPunctuation_def lastChar_def isAbbreviation_def startsWithCapital_def
       spec_endsSentence_def spec_abbreviations_def str_def)

lemma sentenceLoop_tokens:
  "\<forall>w \<in> set ws. isToken w \<Longrightarrow> \<forall>w \<in> set cur. isToken w \<Longrightarrow>
   sentenceLoop ws (join [sp] cur) acc = acc @ map (join [sp]) (spec_sentences isUpperAZ cur ws)"
proof (induction ws arbitrary: cur acc)
  case Nil
  have "join [sp] cur = [] \<longleftrightarrow> cur = []"
    using Nil.prems(2) by (intro join_eq_Nil) (auto simp: isToken_def)
  then show ?case using Nil.prems(2) by (simp add: trim_join_tokens)
next
  case (Cons w rest)
  have ne: "join [sp] cur = [] \<longleftrightarrow> cur = []"
    using Cons.prems(2) by (intro join_eq_Nil) (auto simp: isToken_def)
  have cur': "join [sp] cur @ (if join [sp] cur \<noteq> [] then [sp] else []) @ w = join [sp] (cur @ [w])"
    by (cases "cur = []") (simp_all add: ne join_snoc)
  have tok': "\<forall>x \<in> set (cur @ [w]). isToken x"
    using Cons.prems by simp
  have rest: "\<forall>x \<in> set rest. isToken x"
    using Cons.prems by simp
  show ?case
  proof (cases "spec_endsSentence isUpperAZ w rest")
    case True
    have "sentenceLoop (w # rest) (join [sp] cur) acc =
          sentenceLoop rest (join [sp] []) (acc @ [trim (join [sp] (cur @ [w]))])"
      using True cur' endsSentence_code [of w rest]
      by (simp only: sentenceLoop.simps Let_def join.simps if_True)
    also have "\<dots> = (acc @ [trim (join [sp] (cur @ [w]))]) @ map (join [sp]) (spec_sentences isUpperAZ [] rest)"
      using rest by (intro Cons.IH) simp_all
    finally show ?thesis using True tok' by (simp add: trim_join_tokens)
  next
    case False
    have "sentenceLoop (w # rest) (join [sp] cur) acc = sentenceLoop rest (join [sp] (cur @ [w])) acc"
      using False cur' endsSentence_code [of w rest]
      by (simp only: sentenceLoop.simps Let_def if_False)
    also have "\<dots> = acc @ map (join [sp]) (spec_sentences isUpperAZ (cur @ [w]) rest)"
      using rest tok' by (intro Cons.IH)
    finally show ?thesis using False by simp
  qed
qed

lemma splitIntoSentences_tokens:
  assumes "\<forall>w \<in> set ws. isToken w"
  shows "splitIntoSentences (join [sp] ws) = map (join [sp]) (spec_sentences isUpperAZ [] ws)"
proof (cases "ws = []")
  case True
  then show ?thesis
    by (simp add: splitIntoSentences_def split_on_def isEndPunctuation_def lastChar_def
        trim_def trimStart_def str_def)
next
  case False
  have "split_on sp (join [sp] ws) = ws"
    using False assms by (intro split_on_join) (auto dest: isToken_no_sp)
  then show ?thesis
    using sentenceLoop_tokens [OF assms, of "[]" "[]"] by (simp add: splitIntoSentences_def)
qed

lemma concat_spec_sentences: "concat (spec_sentences isUpperAZ cur ws) = cur @ ws"
  by (induction ws arbitrary: cur) auto

lemma spec_sentences_nonempty: "\<forall>g \<in> set (spec_sentences isUpperAZ cur ws). g \<noteq> []"
  by (induction ws arbitrary: cur) auto

section \<open>The pieces of a long sentence\<close>

lemma lookBack_bounds:
  "max 0 (int (length c) - 10) \<le> b \<Longrightarrow> b < int (length c) \<Longrightarrow> i < int (length c) \<Longrightarrow>
   max 0 (int (length c) - 10) \<le> lookBack c i b \<and> lookBack c i b < int (length c)"
proof (induction c i b rule: lookBack.induct)
  case (1 c i b)
  show ?case
  proof (cases "i \<ge> max 0 (int (length c) - 10)")
    case False
    then show ?thesis using "1.prems" by (auto simp: lookBack.simps [of c i b])
  next
    case True
    show ?thesis
    proof (cases "isBreakWord (c ! nat i)")
      case True
      with \<open>i \<ge> max 0 (int (length c) - 10)\<close> "1.prems" show ?thesis
        by (auto simp: lookBack.simps [of c i b])
    next
      case False
      have "max 0 (int (length c) - 10) \<le> lookBack c (i - 1) b \<and> lookBack c (i - 1) b < int (length c)"
        using True False "1.prems" by (intro "1.IH") auto
      with True False show ?thesis by (auto simp: lookBack.simps [of c i b])
    qed
  qed
qed

lemma longLoop_groups:
  "length cur < 50 \<Longrightarrow>
   \<exists>gs. longLoop ws acc cur = acc @ map (join [sp]) gs \<and> concat gs = cur @ ws \<and>
        (\<forall>g \<in> set gs. g \<noteq> [] \<and> length g \<le> 50)"
proof (induction ws arbitrary: acc cur)
  case Nil
  show ?case
  proof (cases "cur = []")
    case True
    then show ?thesis by simp
  next
    case False
    with Nil have "longLoop [] acc cur = acc @ map (join [sp]) [cur] \<and> concat [cur] = cur @ [] \<and>
        (\<forall>g \<in> set [cur]. g \<noteq> [] \<and> length g \<le> 50)" by simp
    then show ?thesis by blast
  qed
next
  case (Cons w ws)
  define p where "p = cur @ [w]"
  have unfold: "longLoop (w # ws) acc cur =
      (if length p \<ge> 50
       then longLoop ws
              (acc @ [join [sp] (take (nat (lookBack p (int (length p) - 1) (int (length p) - 1) + 1)) p)])
              (drop (nat (lookBack p (int (length p) - 1) (int (length p) - 1) + 1)) p)
       else longLoop ws acc p)"
    by (simp add: MAX_WORDS_def Let_def p_def)
  show ?case
  proof (cases "length p \<ge> 50")
    case False
    then have "length p < 50" by simp
    from Cons.IH [OF this, of acc] obtain gs where
      "longLoop ws acc p = acc @ map (join [sp]) gs" "concat gs = p @ ws"
      "\<forall>g \<in> set gs. g \<noteq> [] \<and> length g \<le> 50" by blast
    with unfold False show ?thesis by (auto simp: p_def)
  next
    case True
    with Cons.prems have len: "length p = 50" by (simp add: p_def)
    define b where "b = lookBack p (int (length p) - 1) (int (length p) - 1)"
    have "max 0 (int (length p) - 10) \<le> b \<and> b < int (length p)"
      unfolding b_def using len by (intro lookBack_bounds) auto
    then have b: "0 \<le> b" "b < 50" using len by auto
    define k where "k = nat (b + 1)"
    have k: "1 \<le> k" "k \<le> 50" using b by (auto simp: k_def)
    have "length (drop k p) < 50" using k len by simp
    from Cons.IH [OF this, of "acc @ [join [sp] (take k p)]"] obtain gs where gs:
      "longLoop ws (acc @ [join [sp] (take k p)]) (drop k p) =
         (acc @ [join [sp] (take k p)]) @ map (join [sp]) gs"
      "concat gs = drop k p @ ws"
      "\<forall>g \<in> set gs. g \<noteq> [] \<and> length g \<le> 50" by blast
    have step: "longLoop (w # ws) acc cur = longLoop ws (acc @ [join [sp] (take k p)]) (drop k p)"
      using True unfold by (simp add: b_def k_def)
    have tk: "take k p \<noteq> []" "length (take k p) \<le> 50" using k len by auto
    have "concat (take k p # gs) = cur @ w # ws"
      using gs(2) append_take_drop_id [of k p] by (simp add: p_def flip: append_assoc)
    moreover have "longLoop (w # ws) acc cur = acc @ map (join [sp]) (take k p # gs)"
      using step gs(1) by simp
    moreover have "\<forall>g \<in> set (take k p # gs). g \<noteq> [] \<and> length g \<le> 50"
      using tk gs(3) by simp
    ultimately show ?thesis by blast
  qed
qed

lemma join_tokens_nonempty:
  "g \<noteq> [] \<Longrightarrow> \<forall>w \<in> set g. isToken w \<Longrightarrow> join [sp] g \<noteq> []"
  using join_eq_Nil [of g "[sp]"] by (auto simp: isToken_def)

lemma splitLongSentence_groups:
  assumes "g \<noteq> []" "\<forall>w \<in> set g. isToken w"
  shows "\<exists>ps. splitLongSentence (join [sp] g) = map (join [sp]) ps \<and> concat ps = g \<and>
          (\<forall>p \<in> set ps. p \<noteq> [] \<and> length p \<le> 50)"
proof -
  have "split_on sp (join [sp] g) = g"
    using assms by (intro split_on_join) (auto dest: isToken_no_sp)
  moreover obtain ps where ps: "longLoop g [] [] = [] @ map (join [sp]) ps" "concat ps = [] @ g"
      "\<forall>p \<in> set ps. p \<noteq> [] \<and> length p \<le> 50"
    using longLoop_groups [of "[]" g "[]"] by auto
  moreover have "filter (\<lambda>c. length (trim c) > 0) (map (join [sp]) ps) = map (join [sp]) ps"
  proof -
    have "length (trim (join [sp] p)) > 0" if "p \<in> set ps" for p
    proof -
      from that ps(2) have tok: "\<forall>w \<in> set p. isToken w" using assms(2) by auto
      moreover from that ps(3) have "p \<noteq> []" by auto
      ultimately show ?thesis by (simp add: trim_join_tokens join_tokens_nonempty)
    qed
    then show ?thesis by (simp add: filter_id_conv)
  qed
  ultimately show ?thesis by (auto simp: splitLongSentence_def)
qed

section \<open>Packing sentences into chunks\<close>

lemma flush_tokens:
  assumes "\<forall>g \<in> set cs. g \<noteq> [] \<and> (\<forall>w \<in> set g. isToken w)"
  shows "trim (join [sp] (map (join [sp]) cs)) = join [sp] (concat cs)"
proof -
  have "join [sp] (map (join [sp]) cs) = join [sp] (concat cs)"
    using assms by (intro join_concat) auto
  moreover have "trim (join [sp] (concat cs)) = join [sp] (concat cs)"
    using assms by (intro trim_join_tokens) auto
  ultimately show ?thesis by simp
qed

lemma packLoop_groups:
  assumes "\<forall>g \<in> set gs. g \<noteq> [] \<and> (\<forall>w \<in> set g. isToken w)"
    and "\<forall>g \<in> set cs. g \<noteq> [] \<and> (\<forall>w \<in> set g. isToken w)"
    and "length (concat cs) \<le> 50"
  shows "\<exists>hs. packLoop (map (join [sp]) gs) acc (map (join [sp]) cs) (length (concat cs)) =
              acc @ map (join [sp]) hs \<and>
            concat hs = concat cs @ concat gs \<and>
            (\<forall>h \<in> set hs. h \<noteq> [] \<and> length h \<le> 50)"
  using assms
proof (induction gs arbitrary: acc cs)
  case Nil
  show ?case
  proof (cases "cs = []")
    case True
    then show ?thesis by simp
  next
    case False
    with Nil.prems(2) have "concat cs \<noteq> []" by (cases cs) auto
    with False Nil.prems have
      "packLoop (map (join [sp]) []) acc (map (join [sp]) cs) (length (concat cs)) =
         acc @ map (join [sp]) [concat cs] \<and>
       concat [concat cs] = concat cs @ concat [] \<and>
       (\<forall>h \<in> set [concat cs]. h \<noteq> [] \<and> length h \<le> 50)"
      by (simp add: flush_tokens)
    then show ?thesis by blast
  qed
next
  case (Cons g gs)
  have g: "g \<noteq> []" "\<forall>w \<in> set g. isToken w" using Cons.prems(1) by auto
  have gs: "\<forall>g \<in> set gs. g \<noteq> [] \<and> (\<forall>w \<in> set g. isToken w)" using Cons.prems(1) by auto
  have cw: "countWords (join [sp] g) = length g" using g by (simp add: countWords_join)
  have fl: "trim (join [sp] (map (join [sp]) cs)) = join [sp] (concat cs)"
    using Cons.prems(2) by (rule flush_tokens)
  have cne: "cs \<noteq> [] \<Longrightarrow> concat cs \<noteq> []" using Cons.prems(2) by (cases cs) auto
  let ?flushed = "if cs = [] then acc else acc @ [join [sp] (concat cs)]"
  let ?fl = "if cs = [] then [] else [concat cs]"
  have fl_ok: "\<forall>h \<in> set ?fl. h \<noteq> [] \<and> length h \<le> 50" "concat ?fl = concat cs"
      "?flushed = acc @ map (join [sp]) ?fl"
    using cne Cons.prems(3) by auto
  consider (long) "length g > 50" | (full) "length g \<le> 50" "length (concat cs) + length g > 50"
    | (fits) "length (concat cs) + length g \<le> 50" by linarith
  then show ?case
  proof cases
    case long
    obtain ps where ps: "splitLongSentence (join [sp] g) = map (join [sp]) ps" "concat ps = g"
        "\<forall>p \<in> set ps. p \<noteq> [] \<and> length p \<le> 50"
      using splitLongSentence_groups [OF g] by blast
    have step: "packLoop (map (join [sp]) (g # gs)) acc (map (join [sp]) cs) (length (concat cs)) =
        packLoop (map (join [sp]) gs) (?flushed @ map (join [sp]) ps) (map (join [sp]) []) (length (concat ([]::jsstring list list)))"
      using long cw fl ps(1) by (simp add: MAX_WORDS_def)
    obtain hs where hs:
      "packLoop (map (join [sp]) gs) (?flushed @ map (join [sp]) ps) (map (join [sp]) []) (length (concat ([]::jsstring list list))) =
         (?flushed @ map (join [sp]) ps) @ map (join [sp]) hs"
      "concat hs = concat [] @ concat gs"
      "\<forall>h \<in> set hs. h \<noteq> [] \<and> length h \<le> 50"
      using Cons.IH [OF gs, of "[]" "?flushed @ map (join [sp]) ps"] by auto
    have "packLoop (map (join [sp]) (g # gs)) acc (map (join [sp]) cs) (length (concat cs)) =
        acc @ map (join [sp]) (?fl @ ps @ hs)"
      using step hs(1) fl_ok(3) by simp
    moreover have "concat (?fl @ ps @ hs) = concat cs @ concat (g # gs)"
      using fl_ok(2) ps(2) hs(2) by simp
    moreover have "\<forall>h \<in> set (?fl @ ps @ hs). h \<noteq> [] \<and> length h \<le> 50"
      using fl_ok(1) ps(3) hs(3) by auto
    ultimately show ?thesis by blast
  next
    case full
    have step: "packLoop (map (join [sp]) (g # gs)) acc (map (join [sp]) cs) (length (concat cs)) =
        packLoop (map (join [sp]) gs) ?flushed (map (join [sp]) [g]) (length (concat [g]))"
      using full cw fl by (simp add: MAX_WORDS_def)
    obtain hs where hs:
      "packLoop (map (join [sp]) gs) ?flushed (map (join [sp]) [g]) (length (concat [g])) =
         ?flushed @ map (join [sp]) hs"
      "concat hs = concat [g] @ concat gs"
      "\<forall>h \<in> set hs. h \<noteq> [] \<and> length h \<le> 50"
      using Cons.IH [OF gs, of "[g]" ?flushed] g full(1) by auto
    have "packLoop (map (join [sp]) (g # gs)) acc (map (join [sp]) cs) (length (concat cs)) =
        acc @ map (join [sp]) (?fl @ hs)"
      using step hs(1) fl_ok(3) by simp
    moreover have "concat (?fl @ hs) = concat cs @ concat (g # gs)"
      using fl_ok(2) hs(2) by simp
    moreover have "\<forall>h \<in> set (?fl @ hs). h \<noteq> [] \<and> length h \<le> 50"
      using fl_ok(1) hs(3) by auto
    ultimately show ?thesis by blast
  next
    case fits
    have step: "packLoop (map (join [sp]) (g # gs)) acc (map (join [sp]) cs) (length (concat cs)) =
        packLoop (map (join [sp]) gs) acc (map (join [sp]) (cs @ [g])) (length (concat (cs @ [g])))"
      using fits cw by (simp add: MAX_WORDS_def)
    obtain hs where hs:
      "packLoop (map (join [sp]) gs) acc (map (join [sp]) (cs @ [g])) (length (concat (cs @ [g]))) =
         acc @ map (join [sp]) hs"
      "concat hs = concat (cs @ [g]) @ concat gs"
      "\<forall>h \<in> set hs. h \<noteq> [] \<and> length h \<le> 50"
      using Cons.IH [OF gs, of "cs @ [g]" acc] g fits Cons.prems(2) by auto
    with step show ?thesis by auto
  qed
qed

lemma chunkSentences_groups:
  assumes "\<forall>g \<in> set gs. g \<noteq> [] \<and> (\<forall>w \<in> set g. isToken w)"
  shows "\<exists>hs. chunkSentences (map (join [sp]) gs) = map (join [sp]) hs \<and> concat hs = concat gs \<and>
            (\<forall>h \<in> set hs. h \<noteq> [] \<and> length h \<le> 50)"
proof -
  obtain hs where hs: "packLoop (map (join [sp]) gs) [] [] 0 = map (join [sp]) hs"
      "concat hs = concat gs" "\<forall>h \<in> set hs. h \<noteq> [] \<and> length h \<le> 50"
    using packLoop_groups [OF assms, of "[]" "[]"] by auto
  have "length (join [sp] h) > 0" if "h \<in> set hs" for h
  proof -
    have "\<forall>w \<in> set h. isToken w"
    proof -
      have "set h \<subseteq> set (concat hs)" using that by auto
      with hs(2) assms show ?thesis by auto
    qed
    with that hs(3) show ?thesis by (simp add: join_tokens_nonempty)
  qed
  then have "filter (\<lambda>chunk. length chunk > 0) (map (join [sp]) hs) = map (join [sp]) hs"
    by (simp add: filter_id_conv)
  with hs show ?thesis by (auto simp: chunkSentences_def)
qed

text \<open>The chunks of a cleaned text: its words, cut into groups of at most fifty.\<close>

lemma chunks_of_clean_text:
  "\<exists>hs. chunkSentences (splitIntoSentences (trim (collapse_ws t))) = map (join [sp]) hs \<and>
        concat hs = wordsOf t \<and> (\<forall>h \<in> set hs. h \<noteq> [] \<and> length h \<le> 50)"
proof -
  have tok: "\<forall>w \<in> set (wordsOf t). isToken w" by (rule wordsOf_tokens)
  have "splitIntoSentences (trim (collapse_ws t)) = map (join [sp]) (spec_sentences isUpperAZ [] (wordsOf t))"
    by (simp add: trim_collapse_ws splitIntoSentences_tokens [OF tok])
  moreover have "\<forall>g \<in> set (spec_sentences isUpperAZ [] (wordsOf t)). g \<noteq> [] \<and> (\<forall>w \<in> set g. isToken w)"
  proof
    fix g assume g: "g \<in> set (spec_sentences isUpperAZ [] (wordsOf t))"
    then have "set g \<subseteq> set (concat (spec_sentences isUpperAZ [] (wordsOf t)))" by auto
    then have "set g \<subseteq> set (wordsOf t)" by (simp add: concat_spec_sentences)
    with tok g show "g \<noteq> [] \<and> (\<forall>w \<in> set g. isToken w)"
      using spec_sentences_nonempty by blast
  qed
  ultimately show ?thesis
    using chunkSentences_groups [of "spec_sentences isUpperAZ [] (wordsOf t)"]
    by (simp add: concat_spec_sentences)
qed

section \<open>Normalising the input\<close>

lemma dropWhile_all: "list_all P xs \<Longrightarrow> dropWhile P xs = []"
  by (simp add: list_all_iff)

lemma splitWsFrom_trailing_spaces:
  "list_all isSpace u \<Longrightarrow>
   filter (\<lambda>w. length w > 0) (splitWsFrom piece (s @ u)) =
   filter (\<lambda>w. length w > 0) (splitWsFrom piece s)"
proof (induction piece s rule: splitWsFrom.induct)
  case (1 piece)
  then show ?case by (cases u) (auto simp: dropWhile_all)
next
  case (2 piece x xs)
  show ?case
  proof (cases "isSpace x")
    case False
    with 2 show ?thesis by simp
  next
    case True
    show ?thesis
    proof (cases "list_all isSpace xs")
      case True
      have a: "dropWhile isSpace (xs @ u) = []"
        using True "2.prems" by (intro dropWhile_all) simp
      have b: "dropWhile isSpace xs = []"
        using True by (rule dropWhile_all)
      have "splitWsFrom piece ((x # xs) @ u) = splitWsFrom piece (x # xs)"
        using \<open>isSpace x\<close> by (simp only: append_Cons splitWsFrom.simps if_True a b)
      then show ?thesis by simp
    next
      case False
      then have "dropWhile isSpace (xs @ u) = dropWhile isSpace xs @ u"
        by (auto simp: list_all_iff dropWhile_append1)
      with \<open>isSpace x\<close> "2.IH"(1) [OF \<open>isSpace x\<close> "2.prems"] show ?thesis by simp
    qed
  qed
qed

lemma wordsOf_trimEnd: "wordsOf (trimEnd s) = wordsOf s"
proof -
  obtain u where "s = trimEnd s @ u" "list_all isSpace u"
    using trimEnd_decomp by blast
  then show ?thesis
    using splitWsFrom_trailing_spaces [of u "[]" "trimEnd s"]
    by (simp add: wordsOf_def split_ws_def)
qed

lemma wordsOf_trim: "wordsOf (trim s) = wordsOf s"
  by (simp add: trim_def trimStart_def wordsOf_trimEnd wordsOf_dropWhile)

lemma splitWsFrom_space:
  "isSpace x \<Longrightarrow>
   filter (\<lambda>w. length w > 0) (splitWsFrom piece (x # xs)) =
   filter (\<lambda>w. length w > 0) [piece] @ wordsOf xs"
  using wordsOf_dropWhile [of xs] by (simp add: wordsOf_def split_ws_def)

lemma splitWsFrom_replace_crlf:
  "filter (\<lambda>w. length w > 0) (splitWsFrom piece (replace_crlf s)) =
   filter (\<lambda>w. length w > 0) (splitWsFrom piece s)"
proof (induction s arbitrary: piece rule: replace_crlf.induct)
  case (1 c d cs)
  have w: "wordsOf (replace_crlf t) = wordsOf t"
    if "\<And>piece. filter (\<lambda>w. length w > 0) (splitWsFrom piece (replace_crlf t)) =
        filter (\<lambda>w. length w > 0) (splitWsFrom piece t)" for t
    using that [of "[]"] by (simp add: wordsOf_def split_ws_def)
  show ?case
  proof (cases "c = 13 \<and> d = 10")
    case True
    then have sp: "isSpace c" "isSpace d" "isSpace nl" by (simp_all add: isSpace_def)
    have "wordsOf (replace_crlf cs) = wordsOf cs"
      using "1.IH"(1) [OF True] by (rule w)
    moreover have "wordsOf (d # cs) = wordsOf cs"
      using splitWsFrom_space [OF sp(2), of "[]" cs] by (simp add: wordsOf_def split_ws_def)
    ultimately have "filter (\<lambda>w. length w > 0) [piece] @ wordsOf (replace_crlf cs) =
        filter (\<lambda>w. length w > 0) [piece] @ wordsOf (d # cs)" by simp
    moreover have "replace_crlf (c # d # cs) = nl # replace_crlf cs" using True by simp
    ultimately show ?thesis
      by (simp only: splitWsFrom_space [OF sp(3)] splitWsFrom_space [OF sp(1)])
  next
    case False
    have IH: "wordsOf (replace_crlf (d # cs)) = wordsOf (d # cs)"
      using "1.IH"(2) [OF False] by (rule w)
    have unfold: "replace_crlf (c # d # cs) = c # replace_crlf (d # cs)" using False by simp
    show ?thesis
    proof (cases "isSpace c")
      case True
      show ?thesis
        by (simp only: unfold splitWsFrom_space [OF True] IH)
    next
      case sF: False
      with unfold "1.IH"(2) [OF False, of "piece @ [c]"] show ?thesis by simp
    qed
  qed
qed simp_all

lemma wordsOf_replace_crlf: "wordsOf (replace_crlf s) = wordsOf s"
  using splitWsFrom_replace_crlf [of "[]" s] by (simp add: wordsOf_def split_ws_def)

lemma wordsOf_normalized: "wordsOf (trim (replace_crlf s)) = wordsOf s"
  by (simp add: wordsOf_trim wordsOf_replace_crlf)

lemma replace_crlf_spaces: "list_all isSpace s \<Longrightarrow> list_all isSpace (replace_crlf s)"
  by (induction s rule: replace_crlf.induct) (auto simp: isSpace_def)

lemma trim_spaces: "list_all isSpace s \<Longrightarrow> trim s = []"
  by (simp add: trim_def trimStart_def dropWhile_all)

lemma clean_chunk_bound:
  assumes "c \<in> set (chunkSentences (splitIntoSentences (trim (collapse_ws t))))"
  shows "countWords c \<le> 50"
proof -
  obtain hs where hs:
    "chunkSentences (splitIntoSentences (trim (collapse_ws t))) = map (join [sp]) hs"
    "concat hs = wordsOf t" "\<forall>h \<in> set hs. h \<noteq> [] \<and> length h \<le> 50"
    using chunks_of_clean_text by blast
  with assms obtain h where h: "h \<in> set hs" "c = join [sp] h" by auto
  then have "set h \<subseteq> set (concat hs)" by auto
  with hs(2) have "\<forall>w \<in> set h. isToken w" using wordsOf_tokens by auto
  with h hs(3) show ?thesis by (simp add: countWords_join)
qed

lemma clean_chunks_words:
  "concat (map wordsOf (chunkSentences (splitIntoSentences (trim (collapse_ws t))))) = wordsOf t"
proof -
  obtain hs where hs:
    "chunkSentences (splitIntoSentences (trim (collapse_ws t))) = map (join [sp]) hs"
    "concat hs = wordsOf t" "\<forall>h \<in> set hs. h \<noteq> [] \<and> length h \<le> 50"
    using chunks_of_clean_text by blast
  have "wordsOf (join [sp] h) = h" if "h \<in> set hs" for h
  proof -
    from that have "set h \<subseteq> set (concat hs)" by auto
    with hs(2) have "\<forall>w \<in> set h. isToken w" using wordsOf_tokens by auto
    then show ?thesis by (rule wordsOf_join)
  qed
  then have "map wordsOf (map (join [sp]) hs) = hs"
    by (simp add: map_idI)
  with hs show ?thesis by simp
qed

lemma clean_chunks_join:
  "join [sp] (chunkSentences (splitIntoSentences (trim (collapse_ws t)))) = trim (collapse_ws t)"
proof -
  obtain hs where hs:
    "chunkSentences (splitIntoSentences (trim (collapse_ws t))) = map (join [sp]) hs"
    "concat hs = wordsOf t" "\<forall>h \<in> set hs. h \<noteq> [] \<and> length h \<le> 50"
    using chunks_of_clean_text by blast
  then have "join [sp] (map (join [sp]) hs) = join [sp] (concat hs)"
    by (intro join_concat) auto
  with hs show ?thesis by (simp add: trim_collapse_ws)
qed

section \<open>The chunks of a text\<close>

lemma trim_Nil [simp]: "trim [] = []"
  by (simp add: trim_def trimStart_def)

lemma sectionChunks_bound:
  "c \<in> set (sectionChunks s) \<Longrightarrow> countWords (chunk_text c) \<le> 50"
  by (auto simp: sectionChunks_def dest: clean_chunk_bound split: if_splits)

text \<open>
  C1. For every value passed as the text and every options object, every chunk that
  \<open>chunkText\<close> returns has at most 50 words, counted as \<open>countWords\<close> counts them
  (the pieces between runs of white space that are not empty); this covers the pieces
  of a sentence of more than 50 words.
\<close>

theorem chunkText_word_bound:
  "\<forall>c \<in> set (chunkText v opts). countWords (chunk_text c) \<le> 50"
proof
  fix c assume c: "c \<in> set (chunkText v opts)"
  show "countWords (chunk_text c) \<le> 50"
  proof (cases v)
    case (JStr s)
    let ?n = "trim (replace_crlf s)"
    from c JStr have "c \<in> set (chunkByStructure ?n) \<or>
        c \<in> set (map (\<lambda>t. \<lparr>chunk_text = t, chunk_context = None\<rparr>)
                 (chunkSentences (splitIntoSentences (trim (collapse_ws ?n)))))"
      by (auto simp: chunkText_def Let_def split: if_splits)
    then show ?thesis
    proof
      assume "c \<in> set (chunkByStructure ?n)"
      then show ?thesis by (auto simp: chunkByStructure_def dest: sectionChunks_bound)
    next
      assume "c \<in> set (map (\<lambda>t. \<lparr>chunk_text = t, chunk_context = None\<rparr>)
                 (chunkSentences (splitIntoSentences (trim (collapse_ws ?n)))))"
      then show ?thesis by (auto dest: clean_chunk_bound)
    qed
  qed (use c in \<open>simp_all add: chunkText_def\<close>)
qed

theorem chunkText_word_bound_witness:
  "chunkText (JStr (str ''Hi  there. Bye.'')) \<lparr>structuralChunking = JUndefined\<rparr> =
     [\<lparr>chunk_text = str ''Hi there. Bye.'', chunk_context = None\<rparr>] \<and>
   countWords (str ''Hi there. Bye.'') \<le> 50"
proof -
  have e: "chunkText (JStr (str ''Hi  there. Bye.'')) \<lparr>structuralChunking = JUndefined\<rparr> =
     [\<lparr>chunk_text = str ''Hi there. Bye.'', chunk_context = None\<rparr>]"
    by (simp add: string_eval chunker_eval)
  then have "\<lparr>chunk_text = str ''Hi there. Bye.'', chunk_context = None\<rparr> \<in>
      set (chunkText (JStr (str ''Hi  there. Bye.'')) \<lparr>structuralChunking = JUndefined\<rparr>)"
    by simp
  then have "countWords (chunk_text \<lparr>chunk_text = str ''Hi there. Bye.'', chunk_context = None\<rparr>) \<le> 50"
    by (rule chunkText_word_bound [rule_format])
  with e show ?thesis by simp
qed

text \<open>
  C2, as the code has it. A text of two sentences, of 50 words and of one word, gives
  two chunks; concatenated with nothing between them, the last word of the first chunk
  and the first word of the second run together, and the result with its white space
  collapsed is not the input with its white space collapsed. And in the text
  \<open>  # Title\<close> no line starts with \<open>#\<close>, so it has no Markdown heading line; but
  \<open>chunkText\<close> looks for one in the trimmed text, finds it, and returns no chunk.
\<close>

theorem chunkText_concatenation_counterexample:
  "\<not> hasHeaders (trim (replace_crlf (str ''a a a a a a a a a a a a a a a a a a a a a a a a a a a a a a a a a a a a a a a a a a a a a a a a a b. C.''))) \<and>
   map chunk_text (chunkText (JStr (str ''a a a a a a a a a a a a a a a a a a a a a a a a a a a a a a a a a a a a a a a a a a a a a a a a a b. C.'')) \<lparr>structuralChunking = JUndefined\<rparr>) =
     [str ''a a a a a a a a a a a a a a a a a a a a a a a a a a a a a a a a a a a a a a a a a a a a a a a a a b.'', str ''C.''] \<and>
   trim (collapse_ws (concat (map chunk_text
     (chunkText (JStr (str ''a a a a a a a a a a a a a a a a a a a a a a a a a a a a a a a a a a a a a a a a a a a a a a a a a b. C.'')) \<lparr>structuralChunking = JUndefined\<rparr>)))) \<noteq>
   trim (collapse_ws (str ''a a a a a a a a a a a a a a a a a a a a a a a a a a a a a a a a a a a a a a a a a a a a a a a a a b. C.'')) \<and>
   \<not> hasHeaders (str ''  # Title'') \<and>
   chunkText (JStr (str ''  # Title'')) \<lparr>structuralChunking = JUndefined\<rparr> = [] \<and>
   trim (collapse_ws (str ''  # Title'')) = str ''# Title''"
  by (simp add: string_eval chunker_eval)

text \<open>
  C2, amended. For every input string in whose text, with its line endings normalised
  and trimmed, \<open>chunkText\<close> finds no Markdown heading line, the texts of the chunks,
  concatenated in order with a space between one chunk and the next and with their
  runs of white space collapsed to single spaces and trimmed, are the input text with
  its runs of white space collapsed to single spaces and trimmed. The words of the
  chunks, in order, are the words of the input.
\<close>

theorem chunkText_preserves_content:
  assumes "\<not> hasHeaders (trim (replace_crlf s))"
  shows "trim (collapse_ws (join [sp] (map chunk_text (chunkText (JStr s) opts)))) =
           trim (collapse_ws s) \<and>
         concat (map (\<lambda>c. wordsOf (chunk_text c)) (chunkText (JStr s) opts)) = wordsOf s"
proof -
  let ?n = "trim (replace_crlf s)"
  have words: "wordsOf ?n = wordsOf s" by (rule wordsOf_normalized)
  show ?thesis
  proof (cases "s = [] \<or> ?n = []")
    case True
    then have "chunkText (JStr s) opts = []" by (auto simp: chunkText_def Let_def)
    moreover from True words have "wordsOf s = []" by auto
    ultimately show ?thesis by (simp add: trim_collapse_ws)
  next
    case False
    with assms have texts: "map chunk_text (chunkText (JStr s) opts) =
        chunkSentences (splitIntoSentences (trim (collapse_ws ?n)))"
      by (simp add: chunkText_def Let_def comp_def)
    then have "join [sp] (map chunk_text (chunkText (JStr s) opts)) = trim (collapse_ws ?n)"
      by (simp only: clean_chunks_join)
    then have "join [sp] (map chunk_text (chunkText (JStr s) opts)) = join [sp] (wordsOf ?n)"
      by (simp only: trim_collapse_ws)
    then have "trim (collapse_ws (join [sp] (map chunk_text (chunkText (JStr s) opts)))) =
        join [sp] (wordsOf (join [sp] (wordsOf ?n)))"
      by (simp add: trim_collapse_ws)
    also have "\<dots> = join [sp] (wordsOf ?n)"
      using wordsOf_tokens [of ?n] by (simp add: wordsOf_join)
    finally have joined: "trim (collapse_ws (join [sp] (map chunk_text (chunkText (JStr s) opts)))) =
        trim (collapse_ws s)"
      by (simp add: words trim_collapse_ws)
    have "concat (map (\<lambda>c. wordsOf (chunk_text c)) (chunkText (JStr s) opts)) =
        concat (map wordsOf (map chunk_text (chunkText (JStr s) opts)))"
      by (simp add: comp_def)
    also have "\<dots> = wordsOf ?n"
      by (simp only: texts clean_chunks_words)
    finally show ?thesis using joined words by simp
  qed
qed

theorem chunkText_preserves_content_witness:
  "\<not> hasHeaders (trim (replace_crlf (str '' a a a a a a a a a a a a a a a a a a a a a a a a a a a a a a a a a a a a a a a a a a a a a a a a a b.\<newline>C. ''))) \<and>
   map chunk_text (chunkText (JStr (str '' a a a a a a a a a a a a a a a a a a a a a a a a a a a a a a a a a a a a a a a a a a a a a a a a a b.\<newline>C. '')) \<lparr>structuralChunking = JUndefined\<rparr>) =
     [str ''a a a a a a a a a a a a a a a a a a a a a a a a a a a a a a a a a a a a a a a a a a a a a a a a a b.'', str ''C.''] \<and>
   trim (collapse_ws (join [sp] (map chunk_text
     (chunkText (JStr (str '' a a a a a a a a a a a a a a a a a a a a a a a a a a a a a a a a a a a a a a a a a a a a a a a a a b.\<newline>C. '')) \<lparr>structuralChunking = JUndefined\<rparr>)))) =
   trim (collapse_ws (str '' a a a a a a a a a a a a a a a a a a a a a a a a a a a a a a a a a a a a a a a a a a a a a a a a a b.\<newline>C. '')) \<and>
   concat (map (\<lambda>c. wordsOf (chunk_text c))
     (chunkText (JStr (str '' a a a a a a a a a a a a a a a a a a a a a a a a a a a a a a a a a a a a a a a a a a a a a a a a a b.\<newline>C. '')) \<lparr>structuralChunking = JUndefined\<rparr>)) =
   wordsOf (str '' a a a a a a a a a a a a a a a a a a a a a a a a a a a a a a a a a a a a a a a a a a a a a a a a a b.\<newline>C. '')"
proof -
  have h: "\<not> hasHeaders (trim (replace_crlf (str '' a a a a a a a a a a a a a a a a a a a a a a a a a a a a a a a a a a a a a a a a a a a a a a a a a b.\<newline>C. '')))"
    by (simp add: string_eval chunker_eval)
  have e: "map chunk_text (chunkText (JStr (str '' a a a a a a a a a a a a a a a a a a a a a a a a a a a a a a a a a a a a a a a a a a a a a a a a a b.\<newline>C. '')) \<lparr>structuralChunking = JUndefined\<rparr>) =
     [str ''a a a a a a a a a a a a a a a a a a a a a a a a a a a a a a a a a a a a a a a a a a a a a a a a a b.'', str ''C.'']"
    by (simp add: string_eval chunker_eval)
  from h e chunkText_preserves_content [OF h, of "\<lparr>structuralChunking = JUndefined\<rparr>"]
  show ?thesis by blast
qed

text \<open>
  C7. \<open>chunkText\<close> returns the empty sequence for the empty string, for \<open>null\<close>, for
  every value that is not a string, and for every string of white space only.
\<close>

theorem chunkText_lenient:
  "chunkText (JStr []) opts = [] \<and>
   chunkText JNull opts = [] \<and>
   (\<forall>v. (\<forall>s. v \<noteq> JStr s) \<longrightarrow> chunkText v opts = []) \<and>
   (\<forall>s. list_all isSpace s \<longrightarrow> chunkText (JStr s) opts = [])"
proof (intro conjI allI impI)
  show "chunkText (JStr []) opts = []" by (simp add: chunkText_def)
  show "chunkText JNull opts = []" by (simp add: chunkText_def)
  show "chunkText v opts = []" if "\<forall>s. v \<noteq> JStr s" for v
    using that by (cases v) (simp_all add: chunkText_def)
  show "chunkText (JStr s) opts = []" if "list_all isSpace s" for s
  proof -
    from that have "trim (replace_crlf s) = []"
      by (intro trim_spaces replace_crlf_spaces)
    then show ?thesis by (simp add: chunkText_def)
  qed
qed

theorem chunkText_lenient_witness:
  "chunkText (JNum 7) \<lparr>structuralChunking = JBool True\<rparr> = [] \<and>
   chunkText (JStr [sp, 9, nl]) \<lparr>structuralChunking = JBool True\<rparr> = []"
proof -
  have a: "\<forall>s. JNum 7 \<noteq> JStr s" by simp
  have b: "list_all isSpace [sp, 9, nl]" by (simp add: isSpace_def)
  from chunkText_lenient [of "\<lparr>structuralChunking = JBool True\<rparr>"] a b show ?thesis
    by blast
qed

section \<open>Sentence splitting of any text\<close>

lemma trim_eq_Nil: "trim x = [] \<longleftrightarrow> list_all isSpace x"
proof -
  have "trimEnd y = [] \<longleftrightarrow> list_all isSpace y" for y
    by (simp add: trimEnd_def list_all_iff)
  moreover have "list_all isSpace (dropWhile isSpace x) \<longleftrightarrow> list_all isSpace x"
    by (induction x) auto
  ultimately show ?thesis by (simp add: trim_def trimStart_def)
qed

lemma trim_sp_Cons: "trim (sp # x) = trim x"
  by (simp add: trim_def trimStart_def)

lemma set_join_last: "ws \<noteq> [] \<Longrightarrow> set (last ws) \<subseteq> set (join sep ws)"
  by (induction sep ws rule: join.induct) auto

lemma join_hd_nonempty: "ws \<noteq> [] \<Longrightarrow> hd ws \<noteq> [] \<Longrightarrow> join sep ws \<noteq> []"
  by (induction sep ws rule: join.induct) auto

text \<open>The string \<open>current\<close> for the words read since the last sentence: their join,
  without the empty words in front (an empty \<open>current\<close> takes no separator).\<close>

lemma current_step:
  "join [sp] (dropWhile (\<lambda>w. w = []) cur) @
     (if join [sp] (dropWhile (\<lambda>w. w = []) cur) \<noteq> [] then [sp] else []) @ w =
   join [sp] (dropWhile (\<lambda>w. w = []) (cur @ [w]))"
proof (cases "dropWhile (\<lambda>w. w = []) cur = []")
  case True
  then have "\<forall>x \<in> set cur. x = []" by (simp add: dropWhile_eq_Nil_conv)
  then have "dropWhile (\<lambda>w. w = []) (cur @ [w]) = dropWhile (\<lambda>w. w = []) [w]"
    by (simp add: dropWhile_append)
  then show ?thesis unfolding True by simp
next
  case False
  then have hd: "hd (dropWhile (\<lambda>w. w = []) cur) \<noteq> []"
    using hd_dropWhile [of "\<lambda>w. w = []" cur] by simp
  from False have "dropWhile (\<lambda>w. w = []) (cur @ [w]) = dropWhile (\<lambda>w. w = []) cur @ [w]"
    by (simp add: dropWhile_append)
  moreover have "join [sp] (dropWhile (\<lambda>w. w = []) cur) \<noteq> []"
    using False hd by (rule join_hd_nonempty)
  ultimately show ?thesis using False by (simp add: join_snoc)
qed

lemma trim_current: "trim (join [sp] (dropWhile (\<lambda>w. w = []) cur)) = trim (join [sp] cur)"
proof (induction cur)
  case Nil
  then show ?case by simp
next
  case (Cons w cur)
  show ?case
  proof (cases "w = []")
    case False
    then show ?thesis by simp
  next
    case True
    show ?thesis
    proof (cases "cur = []")
      case True
      with \<open>w = []\<close> show ?thesis by simp
    next
      case False
      with True Cons show ?thesis by (simp add: join_Cons trim_sp_Cons)
    qed
  qed
qed

lemma sentence_end_nonempty:
  assumes "spec_endsSentence isUpperAZ w rest"
  shows "trim (join [sp] (cur @ [w])) \<noteq> []"
proof -
  from assms have w: "w \<noteq> []" "\<not> isSpace (last w)"
    by (auto simp: spec_endsSentence_def str_def isSpace_def)
  have "set w \<subseteq> set (join [sp] (cur @ [w]))"
    using set_join_last [of "cur @ [w]" "[sp]"] by simp
  moreover have "last w \<in> set w" using w(1) by simp
  ultimately have "last w \<in> set (join [sp] (cur @ [w]))" by blast
  with w(2) have "\<not> list_all isSpace (join [sp] (cur @ [w]))"
    by (auto simp: list_all_iff)
  then show ?thesis by (simp add: trim_eq_Nil)
qed

lemma sentenceLoop_spec:
  "sentenceLoop ws (join [sp] (dropWhile (\<lambda>w. w = []) cur)) acc =
     acc @ filter (\<lambda>s. s \<noteq> []) (map (\<lambda>g. trim (join [sp] g)) (spec_sentences isUpperAZ cur ws))"
proof (induction ws arbitrary: cur acc)
  case Nil
  show ?case by (cases "cur = []") (simp_all add: trim_current)
next
  case (Cons w rest)
  show ?case
  proof (cases "spec_endsSentence isUpperAZ w rest")
    case True
    have "sentenceLoop (w # rest) (join [sp] (dropWhile (\<lambda>w. w = []) cur)) acc =
          sentenceLoop rest (join [sp] (dropWhile (\<lambda>w. w = []) []))
            (acc @ [trim (join [sp] (dropWhile (\<lambda>w. w = []) (cur @ [w])))])"
      using True endsSentence_code [of w rest]
      by (simp only: sentenceLoop.simps Let_def current_step if_True dropWhile.simps join.simps)
    also have "\<dots> = (acc @ [trim (join [sp] (cur @ [w]))]) @
        filter (\<lambda>s. s \<noteq> []) (map (\<lambda>g. trim (join [sp] g)) (spec_sentences isUpperAZ [] rest))"
      by (simp only: Cons.IH trim_current)
    finally show ?thesis
      using True sentence_end_nonempty [OF True, of cur] by simp
  next
    case False
    have "sentenceLoop (w # rest) (join [sp] (dropWhile (\<lambda>w. w = []) cur)) acc =
          sentenceLoop rest (join [sp] (dropWhile (\<lambda>w. w = []) (cur @ [w]))) acc"
      using False endsSentence_code [of w rest]
      by (simp only: sentenceLoop.simps Let_def current_step if_False)
    then show ?thesis using False by (simp add: Cons.IH)
  qed
qed

text \<open>
  C5, as the code has it. In \<open>Fin. \<close>\<open>El va. Ok.\<close>, written with the capital letter
  U+00C9 for the \<open>E\<close>, the word \<open>Fin.\<close> ends in a full stop, is no abbreviation and is
  followed by a word that starts with an upper-case letter: by the rule it ends a
  sentence, and the text has three sentences. \<open>splitIntoSentences\<close> returns two: the
  test \<open>/^[A-Z]/\<close> does not accept U+00C9.
\<close>

theorem splitIntoSentences_upper_case_counterexample:
  "splitIntoSentences (str ''Fin. '' @ [201] @ str ''l va. Ok.'') =
     [str ''Fin. '' @ [201] @ str ''l va.'', str ''Ok.''] \<and>
   filter (\<lambda>s. s \<noteq> [])
     (map (\<lambda>g. trim (join [sp] g))
        (spec_sentences spec_upperCaseLetter []
           (split_on sp (str ''Fin. '' @ [201] @ str ''l va. Ok.'')))) =
     [str ''Fin.'', [201] @ str ''l va.'', str ''Ok.'']"
  by (simp add: string_eval chunker_eval spec_endsSentence_def spec_abbreviations_def
      spec_upperCaseLetter_def)

text \<open>
  C5, amended. \<open>Dr. Smith arrived. He left.\<close> splits into the two sentences
  \<open>Dr. Smith arrived.\<close> and \<open>He left.\<close>. In general, for every text, with the words
  of \<open>text.split(' ')\<close>, the sentences are those of \<open>spec_sentences\<close> with the letters
  \<open>A\<close> to \<open>Z\<close> as the upper-case letters, each joined by spaces and trimmed: a word
  ends the sentence exactly when it ends in a full stop, an exclamation mark or a
  question mark, is no recognized abbreviation, and is the last word or is followed by
  a word that starts with a letter from \<open>A\<close> to \<open>Z\<close>; what is left at the end of the
  text is the last sentence, unless it is white space only.
\<close>

theorem splitIntoSentences_spec:
  "splitIntoSentences (str ''Dr. Smith arrived. He left.'') =
     [str ''Dr. Smith arrived.'', str ''He left.''] \<and>
   splitIntoSentences text =
     filter (\<lambda>s. s \<noteq> [])
       (map (\<lambda>g. trim (join [sp] g)) (spec_sentences isUpperAZ [] (split_on sp text)))"
proof
  show "splitIntoSentences (str ''Dr. Smith arrived. He left.'') =
     [str ''Dr. Smith arrived.'', str ''He left.'']"
    by (simp add: string_eval chunker_eval)
  show "splitIntoSentences text =
     filter (\<lambda>s. s \<noteq> [])
       (map (\<lambda>g. trim (join [sp] g)) (spec_sentences isUpperAZ [] (split_on sp text)))"
    using sentenceLoop_spec [of "split_on sp text" "[]" "[]"]
    by (simp add: splitIntoSentences_def)
qed

theorem splitIntoSentences_spec_witness:
  "splitIntoSentences (str ''See e.g. Dr. Who? He left. bye '') =
     filter (\<lambda>s. s \<noteq> [])
       (map (\<lambda>g. trim (join [sp] g))
          (spec_sentences isUpperAZ [] (split_on sp (str ''See e.g. Dr. Who? He left. bye '')))) \<and>
   spec_sentences isUpperAZ [] (split_on sp (str ''See e.g. Dr. Who? He left. bye '')) =
     [map str [''See'', ''e.g.'', ''Dr.'', ''Who?''], map str [''He'', ''left.'', ''bye'', '''']] \<and>
   splitIntoSentences (str ''See e.g. Dr. Who? He left. bye '') =
     [str ''See e.g. Dr. Who?'', str ''He left. bye'']"
proof -
  have a: "spec_sentences isUpperAZ [] (split_on sp (str ''See e.g. Dr. Who? He left. bye '')) =
     [map str [''See'', ''e.g.'', ''Dr.'', ''Who?''], map str [''He'', ''left.'', ''bye'', '''']]"
    by (simp add: string_eval spec_endsSentence_def spec_abbreviations_def)
  have b: "splitIntoSentences (str ''See e.g. Dr. Who? He left. bye '') =
     filter (\<lambda>s. s \<noteq> [])
       (map (\<lambda>g. trim (join [sp] g))
          (spec_sentences isUpperAZ [] (split_on sp (str ''See e.g. Dr. Who? He left. bye ''))))"
    by (rule splitIntoSentences_spec [THEN conjunct2])
  have c: "splitIntoSentences (str ''See e.g. Dr. Who? He left. bye '') =
     [str ''See e.g. Dr. Who?'', str ''He left. bye'']"
    unfolding b a by (simp add: string_eval)
  from a b c show ?thesis by blast
qed

section \<open>Sections and contexts\<close>

text \<open>The section that the first loop pushes for a header and the lines collected.\<close>

lemma sectionLoop_outline:
  "sectionLoop ls secs h cur =
     (case spec_outline ls of
        (lead, hs) \<Rightarrow>
          secs @
          (if cur @ lead = [] then []
           else [\<lparr>header = h, content = trim (join [nl] (cur @ lead))\<rparr>]) @
          concat (map (\<lambda>(t, b). if b = [] then []
                                 else [\<lparr>header = Some t, content = trim (join [nl] b)\<rparr>]) hs))"
proof (induction ls arbitrary: secs h cur)
  case Nil
  then show ?case by simp
next
  case (Cons l ls)
  obtain lead hs where o: "spec_outline ls = (lead, hs)" by (cases "spec_outline ls")
  show ?case
  proof (cases "headerMatch l")
    case None
    with o Cons.IH [of secs h "cur @ [l]"] show ?thesis by simp
  next
    case (Some title)
    with o Cons.IH [of "if length cur > 0 then secs @ [\<lparr>header = h, content = trim (join [nl] cur)\<rparr>] else secs"
        "Some (trim title)" "[]"]
    show ?thesis by simp
  qed
qed

lemma sectionChunks_block:
  "sectionChunks \<lparr>header = h, content = trim (join [nl] b)\<rparr> = map (withContext h) (spec_blockChunks b)"
  by (simp add: sectionChunks_def spec_blockChunks_def withContext_def)

lemma spec_blockChunks_Nil [simp]: "spec_blockChunks [] = []"
  by (simp add: spec_blockChunks_def)

lemma chunkByStructure_outline:
  "chunkByStructure text =
     (case spec_outline (split_on nl text) of
        (lead, secs) \<Rightarrow>
          map (withContext None) (spec_blockChunks lead) @
          concat (map (\<lambda>(title, body). map (withContext (Some title)) (spec_blockChunks body)) secs))"
proof -
  obtain lead secs where o: "spec_outline (split_on nl text) = (lead, secs)"
    by (cases "spec_outline (split_on nl text)")
  have "concat (map sectionChunks
          (concat (map (\<lambda>(t, b). if b = [] then []
                                  else [\<lparr>header = Some t, content = trim (join [nl] b)\<rparr>]) hs))) =
        concat (map (\<lambda>(title, body). map (withContext (Some title)) (spec_blockChunks body)) hs)"
    for hs :: "(jsstring \<times> jsstring list) list"
    by (induction hs) (auto simp: sectionChunks_block)
  then show ?thesis
    using o by (simp add: chunkByStructure_def sectionLoop_outline [of _ "[]" None "[]"] sectionChunks_block)
qed

text \<open>
  C3, as the code has it. The input of the counterexample has a heading line, and the
  chunk of the text before that line has no context.
\<close>

theorem chunkText_context_counterexample:
  "hasHeaders (trim (replace_crlf (str ''intro\<newline># Head\<newline>body''))) \<and>
   chunkText (JStr (str ''intro\<newline># Head\<newline>body'')) \<lparr>structuralChunking = JBool True\<rparr> =
     [\<lparr>chunk_text = str ''intro'', chunk_context = None\<rparr>,
      \<lparr>chunk_text = str ''body'', chunk_context = Some (str ''Head'')\<rparr>]"
  by (simp add: string_eval chunker_eval)

text \<open>
  C3, amended. For every input with structural chunking enabled in which \<open>chunkText\<close>
  finds a Markdown heading line, the chunks are, in order, the chunks of the lines
  before the first heading line, which carry no context, and then for every heading
  line the chunks of the lines from it to the next heading line, which carry the
  trimmed title of that heading line as their context.
\<close>

theorem chunkText_context:
  assumes "truthy (structuralFlag opts)"
    and "hasHeaders (trim (replace_crlf s))"
  shows "case spec_outline (split_on nl (trim (replace_crlf s))) of
           (lead, secs) \<Rightarrow>
             chunkText (JStr s) opts =
               map (withContext None) (spec_blockChunks lead) @
               concat (map (\<lambda>(title, body).
                              map (withContext (Some title)) (spec_blockChunks body)) secs)"
proof -
  from assms(2) have "trim (replace_crlf s) \<noteq> []" by (auto simp: hasHeaders_def)
  moreover then have "s \<noteq> []" by auto
  ultimately have "chunkText (JStr s) opts = chunkByStructure (trim (replace_crlf s))"
    using assms by (simp add: chunkText_def)
  then show ?thesis by (simp add: chunkByStructure_outline split: prod.splits)
qed

theorem chunkText_context_witness:
  "truthy (structuralFlag \<lparr>structuralChunking = JUndefined\<rparr>) \<and>
   hasHeaders (trim (replace_crlf (str ''intro\<newline>## One \<newline>a b.\<newline>c\<newline># Two\<newline>d''))) \<and>
   spec_outline (split_on nl (trim (replace_crlf (str ''intro\<newline>## One \<newline>a b.\<newline>c\<newline># Two\<newline>d'')))) =
     ([str ''intro''], [(str ''One'', [str ''a b.'', str ''c'']), (str ''Two'', [str ''d''])]) \<and>
   chunkText (JStr (str ''intro\<newline>## One \<newline>a b.\<newline>c\<newline># Two\<newline>d'')) \<lparr>structuralChunking = JUndefined\<rparr> =
     map (withContext None) (spec_blockChunks [str ''intro'']) @
     map (withContext (Some (str ''One''))) (spec_blockChunks [str ''a b.'', str ''c'']) @
     map (withContext (Some (str ''Two''))) (spec_blockChunks [str ''d''])"
proof -
  have a: "truthy (structuralFlag \<lparr>structuralChunking = JUndefined\<rparr>)"
    by (simp add: structuralFlag_def)
  have b: "hasHeaders (trim (replace_crlf (str ''intro\<newline>## One \<newline>a b.\<newline>c\<newline># Two\<newline>d'')))"
    by (simp add: string_eval chunker_eval)
  have c: "spec_outline (split_on nl (trim (replace_crlf (str ''intro\<newline>## One \<newline>a b.\<newline>c\<newline># Two\<newline>d'')))) =
     ([str ''intro''], [(str ''One'', [str ''a b.'', str ''c'']), (str ''Two'', [str ''d''])])"
    by (simp add: string_eval headerMatch_def)
  from chunkText_context [OF a b] c a b show ?thesis by simp
qed

section \<open>The persistence layer: toggling and deleting\<close>

lemma storePut_mem: "r \<in> set (storePut key r xs)"
  by (induction xs) auto

lemma storePut_subset: "set (storePut key r xs) \<subseteq> insert r (set xs)"
  by (induction xs) auto

lemma fold_deleteBookmark_bookmarks:
  "bookmarks (fold (\<lambda>b. deleteBookmark (bm_id b)) found d) =
     filter (\<lambda>b. bm_id b \<notin> bm_id ` set found) (bookmarks d)"
proof (induction found arbitrary: d)
  case Nil
  then show ?case by simp
next
  case (Cons f found)
  have "bookmarks (deleteBookmark (bm_id f) d) = filter (\<lambda>r. bm_id r \<noteq> bm_id f) (bookmarks d)"
    by (simp add: deleteBookmark_def storeDelete_def)
  moreover have "filter (\<lambda>b. bm_id b \<notin> bm_id ` set found) (filter (\<lambda>r. bm_id r \<noteq> bm_id f) xs) =
        filter (\<lambda>b. bm_id b \<notin> bm_id ` set (f # found)) xs" for xs :: "bookmark list"
    by (induction xs) auto
  ultimately show ?case
    by (simp only: fold_Cons comp_apply Cons.IH)
qed

lemma fold_deleteBookmark_documents:
  "documents (fold (\<lambda>b. deleteBookmark (bm_id b)) found d) = documents d"
  by (induction found arbitrary: d) (auto simp: deleteBookmark_def)

lemma fold_deleteBookmark_progress:
  "progress (fold (\<lambda>b. deleteBookmark (bm_id b)) found d) = progress d"
  by (induction found arbitrary: d) (auto simp: deleteBookmark_def)

text \<open>
  C9. From a state with no bookmark for the pair (documentId, chunkIndex), two calls of
  \<open>toggleBookmark\<close> for the pair return \<open>added: true\<close> and then \<open>added: false\<close>, and
  the state after the second call has no bookmark for the pair. The identifiers, the
  times and the texts of the two calls are arbitrary.
\<close>

theorem toggleBookmark_twice:
  assumes "\<not> isChunkBookmarked documentId chunkIndex d"
  shows "case toggleBookmark u1 t1 documentId chunkIndex text1 d of
           (r1, d1) \<Rightarrow>
             (case toggleBookmark u2 t2 documentId chunkIndex text2 d1 of
                (r2, d2) \<Rightarrow>
                  added r1 \<and> \<not> added r2 \<and> bookmark_of r2 = None \<and>
                  \<not> isChunkBookmarked documentId chunkIndex d2)"
proof -
  define nb where "nb = \<lparr>bm_id = u1, bm_documentId = documentId, bm_chunkIndex = chunkIndex,
    bm_text = text1, bm_createdAt = t1\<rparr>"
  define d1 where "d1 = d\<lparr>bookmarks := storePut bm_id nb (bookmarks d)\<rparr>"
  let ?match = "\<lambda>b. bm_documentId b = documentId \<and> bm_chunkIndex b = chunkIndex"
  have none: "\<forall>b \<in> set (bookmarks d). \<not> ?match b"
    using assms by (auto simp: isChunkBookmarked_def getBookmarksByDocument_def list_ex_iff)
  then have "find (\<lambda>b. bm_chunkIndex b = chunkIndex) (getBookmarksByDocument documentId d) = None"
    by (auto simp: find_None_iff getBookmarksByDocument_def)
  then have first: "toggleBookmark u1 t1 documentId chunkIndex text1 d =
      (\<lparr>added = True, bookmark_of = Some nb\<rparr>, d1)"
    by (simp add: toggleBookmark_def saveBookmark_def nb_def d1_def Let_def)
  have in1: "nb \<in> set (bookmarks d1)"
    by (simp add: d1_def storePut_mem)
  have sub1: "set (bookmarks d1) \<subseteq> insert nb (set (bookmarks d))"
    by (simp add: d1_def storePut_subset)
  have only: "b = nb" if "b \<in> set (bookmarks d1)" "?match b" for b
    using that sub1 none by auto
  have "nb \<in> set (getBookmarksByDocument documentId d1)" "bm_chunkIndex nb = chunkIndex"
    using in1 by (auto simp: getBookmarksByDocument_def nb_def)
  then obtain e where e: "find (\<lambda>b. bm_chunkIndex b = chunkIndex)
      (getBookmarksByDocument documentId d1) = Some e"
    by (cases "find (\<lambda>b. bm_chunkIndex b = chunkIndex) (getBookmarksByDocument documentId d1)")
       (auto simp: find_None_iff)
  then have "e \<in> set (bookmarks d1)" "?match e"
    by (auto simp: find_Some_iff getBookmarksByDocument_def dest: nth_mem)
  then have "e = nb" by (rule only)
  with e have second: "toggleBookmark u2 t2 documentId chunkIndex text2 d1 =
      (\<lparr>added = False, bookmark_of = None\<rparr>, deleteBookmark (bm_id nb) d1)"
    by (simp add: toggleBookmark_def)
  have "\<not> ?match b" if "b \<in> set (bookmarks (deleteBookmark (bm_id nb) d1))" for b
    using that only [of b] by (auto simp: deleteBookmark_def storeDelete_def)
  then have "\<not> isChunkBookmarked documentId chunkIndex (deleteBookmark (bm_id nb) d1)"
    by (auto simp: isChunkBookmarked_def getBookmarksByDocument_def list_ex_iff)
  with first second show ?thesis by simp
qed

theorem toggleBookmark_twice_witness:
  "\<not> isChunkBookmarked (str ''doc'') 3 \<lparr>documents = [], bookmarks = [], progress = []\<rparr> \<and>
   (case toggleBookmark (str ''u1'') (str ''t1'') (str ''doc'') 3 (str ''x'')
           \<lparr>documents = [], bookmarks = [], progress = []\<rparr> of
      (r1, d1) \<Rightarrow>
        (case toggleBookmark (str ''u2'') (str ''t2'') (str ''doc'') 3 (str ''x'') d1 of
           (r2, d2) \<Rightarrow>
             added r1 \<and> \<not> added r2 \<and> bookmark_of r2 = None \<and>
             \<not> isChunkBookmarked (str ''doc'') 3 d2))"
proof -
  have h: "\<not> isChunkBookmarked (str ''doc'') 3 \<lparr>documents = [], bookmarks = [], progress = []\<rparr>"
    by (simp add: isChunkBookmarked_def getBookmarksByDocument_def)
  show ?thesis
    by (rule conjI [OF h toggleBookmark_twice [OF h]])
qed

text \<open>
  C10. After \<open>deleteDocument\<close> for an identifier the state holds no document with that
  identifier, no bookmark of that document and no progress entry of that document.
\<close>

theorem deleteDocument_cascade:
  "docId \<notin> doc_id ` set (documents (deleteDocument docId d)) \<and>
   docId \<notin> bm_documentId ` set (bookmarks (deleteDocument docId d)) \<and>
   docId \<notin> pr_documentId ` set (progress (deleteDocument docId d))"
proof -
  define d1 where "d1 = d\<lparr>documents := storeDelete doc_id docId (documents d)\<rparr>"
  define found where "found = getBookmarksByDocument docId d1"
  define d2 where "d2 = fold (\<lambda>b. deleteBookmark (bm_id b)) found d1"
  have eq: "deleteDocument docId d = d2\<lparr>progress := storeDelete pr_documentId docId (progress d2)\<rparr>"
    by (simp add: deleteDocument_def d1_def found_def d2_def Let_def)
  have docs: "documents d2 = storeDelete doc_id docId (documents d)"
    by (simp add: d2_def fold_deleteBookmark_documents d1_def)
  have bms: "bookmarks d2 = filter (\<lambda>b. bm_id b \<notin> bm_id ` set found) (bookmarks d1)"
    by (simp add: d2_def fold_deleteBookmark_bookmarks)
  have "docId \<notin> doc_id ` set (documents d2)"
    by (auto simp: docs storeDelete_def)
  moreover have "docId \<notin> bm_documentId ` set (bookmarks d2)"
    by (auto simp: bms found_def getBookmarksByDocument_def)
  moreover have "docId \<notin> pr_documentId ` set (storeDelete pr_documentId docId (progress d2))"
    by (auto simp: storeDelete_def)
  ultimately show ?thesis by (simp add: eq)
qed

section \<open>Statistics\<close>





section \<open>Heading patterns\<close>

text \<open>
  C6. The line \<open>ii. second item of the list\<close> starts with a roman numeral, a full stop
  and a space, and a lower-case letter follows; it matches none of the patterns the
  specification lists, and \<open>detectHeadingPattern\<close> classifies it as a heading: the flag
  \<open>i\<close> of the last pattern also applies to its class \<open>[A-Z]\<close>. The pattern for a
  numeric outline has no such flag, and the same line with the numeral \<open>2\<close> is no
  heading. Neither line has a letter from \<open>A\<close> to \<open>Z\<close>, so the test for words in
  upper case fails whatever \<open>toUpperCase\<close> returns.
\<close>

theorem detectHeadingPattern_lower_case_after_numeral:
  "detectHeadingPattern toUpperCase (str ''ii. second item of the list'') = True \<and>
   detectHeadingPattern toUpperCase (str ''2 second item of the list'') = False"
  by (simp add: detectHeadingPattern_def string_eval startsWithCI_def lowerAZ_def
      headingKeywords_def isRomanCI_def spacesThen_def)

section \<open>The hard split of a long sentence\<close>

text \<open>
  C4. A sentence of 51 words whose 49th word ends in an em-dash (U+2014) and which has
  no other break character: \<open>splitLongSentence\<close> cuts after word 50, not after the
  word with the em-dash. The literal the source compares with is the three code units
  U+00E2 U+20AC U+201D, not U+2014. With a comma in the place of the em-dash the cut
  is after word 49.
\<close>

theorem splitLongSentence_em_dash_is_no_break:
  "splitLongSentence (str ''a a a a a a a a a a a a a a a a a a a a a a a a a a a a a a a a a a a a a a a a a a a a a a a a b'' @ [8212] @ str '' c d'') =
     [str ''a a a a a a a a a a a a a a a a a a a a a a a a a a a a a a a a a a a a a a a a a a a a a a a a b'' @ [8212] @ str '' c'', str ''d''] \<and>
   splitLongSentence (str ''a a a a a a a a a a a a a a a a a a a a a a a a a a a a a a a a a a a a a a a a a a a a a a a a b, c d'') = [str ''a a a a a a a a a a a a a a a a a a a a a a a a a a a a a a a a a a a a a a a a a a a a a a a a b,'', str ''c d'']"
  by (simp add: string_eval chunker_eval)

end
